theory Spec2Isabelle
  imports Complex_Main "HOL-Library.Product_Lexorder" "HOL-Library.Multiset"
begin

section \<open>Data model of the pairing service\<close>

text \<open>
  The exceptions the code can raise, as values. \<open>Exception\<close> is the plain
  \<^verbatim>\<open>Exception(...)\<close> of \<^verbatim>\<open>compute_pairings\<close> (the algorithm error);
  \<open>ValueError\<close> is what the request handler reports as "Invalid input",
  every other class is reported as "Internal error".
\<close>

datatype error = ValueError string | KeyError string | Exception string

datatype Color = NONE | WHITE | BLACK

text \<open>
  The dataclass \<^verbatim>\<open>Player\<close>. Python's \<^verbatim>\<open>float\<close> score is taken as an exact
  rational (half points are exact in binary floating point); NaN, infinities and
  rounding are outside this model. The field \<^verbatim>\<open>id\<close> is named \<open>id_of\<close>.
  Equality of records is the field-wise \<^verbatim>\<open>__eq__\<close> the dataclass generates.
\<close>

record Player =
  id_of :: string
  rating :: int
  score :: rat
  color_history :: "string list"
  opponents :: "string list"
  rank :: int
  color_balance :: int
  preferred_color :: Color
  has_bye :: bool

definition calculate_color_balance :: "Player \<Rightarrow> Player" where
  "calculate_color_balance p =
     (let whites = count_list (color_history p) ''white'';
          blacks = count_list (color_history p) ''black''
      in p\<lparr>color_balance := int whites - int blacks\<rparr>)"

definition determine_preferred_color :: "Player \<Rightarrow> Player" where
  "determine_preferred_color p =
     (if color_balance p > 0 then p\<lparr>preferred_color := BLACK\<rparr>
      else if color_balance p < 0 then p\<lparr>preferred_color := WHITE\<rparr>
      else p\<lparr>preferred_color := NONE\<rparr>)"

text \<open>The generated \<^verbatim>\<open>__init__\<close> with the field defaults, followed by \<^verbatim>\<open>__post_init__\<close>.\<close>

definition Player_init ::
  "string \<Rightarrow> int \<Rightarrow> rat \<Rightarrow> string list \<Rightarrow> string list \<Rightarrow> bool \<Rightarrow> Player" where
  "Player_init i r s ch opp hb =
     determine_preferred_color (calculate_color_balance
       \<lparr>id_of = i, rating = r, score = s, color_history = ch, opponents = opp,
        rank = 0, color_balance = 0, preferred_color = NONE, has_bye = hb\<rparr>)"

record Pairing =
  white :: string
  black :: string
  is_bye :: bool

definition Pairing_init :: "string \<Rightarrow> string \<Rightarrow> Pairing" where
  "Pairing_init w b = \<lparr>white = w, black = b, is_bye = (b = '''' \<or> b = ''0'')\<rparr>"

subsection \<open>The object store\<close>

text \<open>
  \<^verbatim>\<open>Player\<close> objects are mutable and shared between \<^verbatim>\<open>tournament.players\<close>
  and the working lists of the engine. The store is the list of all \<^verbatim>\<open>Player\<close>
  objects in the order of their creation (the order of the input records); a
  reference is an index into it. Lists of players are lists of references.
\<close>

type_synonym ref = nat
type_synonym store = "Player list"

record Tournament =
  objs :: store
  players :: "ref list"
  current_round :: nat

text \<open>
  \<^verbatim>\<open>max(len(p.color_history) for p in ps) if ps else 0\<close>.
\<close>

definition max_games :: "store \<Rightarrow> ref list \<Rightarrow> nat" where
  "max_games h ps =
     (case ps of [] \<Rightarrow> 0
      | p # rest \<Rightarrow> fold (\<lambda>q m. max m (length (color_history (h ! q)))) rest
                      (length (color_history (h ! p))))"

subsection \<open>Building a tournament from a decoded JSON document\<close>

text \<open>
  One entry of \<^verbatim>\<open>json_data["players"]\<close>: a dictionary in which any key may be
  absent (\<open>None\<close>). The values under the required keys are of arbitrary types
  \<open>'a\<close>, \<open>'b\<close>, \<open>'c\<close>; the builtins \<^verbatim>\<open>str\<close>, \<^verbatim>\<open>int\<close> and \<^verbatim>\<open>float\<close> applied to
  them are parameters \<open>py_str\<close>, \<open>py_int\<close> and \<open>py_float\<close> of the loader (the
  latter two may raise). For a validated \<^verbatim>\<open>PlayerInput\<close> the values are a
  \<^verbatim>\<open>str\<close>, an \<^verbatim>\<open>int\<close> and a \<^verbatim>\<open>float\<close>, on which the builtins are the identity.
\<close>

record ('a, 'b, 'c) player_data =
  pd_id :: "'a option"
  pd_rating :: "'b option"
  pd_score :: "'c option"
  pd_color_history :: "string list option"
  pd_opponents :: "string list option"
  pd_has_bye :: "bool option"

text \<open>The document: the value under the key \<^verbatim>\<open>"players"\<close>, if present.\<close>

type_synonym ('a, 'b, 'c) json_data = "('a, 'b, 'c) player_data list option"

definition subscript :: "string \<Rightarrow> 'v option \<Rightarrow> error + 'v" where
  "subscript key v = (case v of None \<Rightarrow> Inl (KeyError key) | Some x \<Rightarrow> Inr x)"

definition get_default :: "'v option \<Rightarrow> 'v \<Rightarrow> 'v" where
  "get_default v d = (case v of None \<Rightarrow> d | Some x \<Rightarrow> x)"

text \<open>The body of the \<^verbatim>\<open>for player_data in json_data["players"]\<close> loop up to the constructor call.\<close>

definition load_player ::
  "('a \<Rightarrow> string) \<Rightarrow> ('b \<Rightarrow> error + int) \<Rightarrow> ('c \<Rightarrow> error + rat) \<Rightarrow>
   ('a, 'b, 'c) player_data \<Rightarrow> error + Player" where
  "load_player py_str py_int py_float d =
     (case subscript ''id'' (pd_id d) of Inl e \<Rightarrow> Inl e | Inr i \<Rightarrow>
      case subscript ''rating'' (pd_rating d) of Inl e \<Rightarrow> Inl e | Inr rv \<Rightarrow>
      case py_int rv of Inl e \<Rightarrow> Inl e | Inr r \<Rightarrow>
      case subscript ''score'' (pd_score d) of Inl e \<Rightarrow> Inl e | Inr sv \<Rightarrow>
      case py_float sv of Inl e \<Rightarrow> Inl e | Inr s \<Rightarrow>
        Inr (Player_init (py_str i) r s
               (get_default (pd_color_history d) [])
               (get_default (pd_opponents d) [])
               (get_default (pd_has_bye d) False)))"

fun load_players ::
  "('a \<Rightarrow> string) \<Rightarrow> ('b \<Rightarrow> error + int) \<Rightarrow> ('c \<Rightarrow> error + rat) \<Rightarrow>
   ('a, 'b, 'c) player_data list \<Rightarrow> Tournament \<Rightarrow> error + Tournament" where
  "load_players py_str py_int py_float [] t = Inr t"
| "load_players py_str py_int py_float (d # ds) t =
     (case load_player py_str py_int py_float d of
        Inl e \<Rightarrow> Inl e
      | Inr p \<Rightarrow> load_players py_str py_int py_float ds
                  (t\<lparr>objs := objs t @ [p], players := players t @ [length (objs t)]\<rparr>))"

definition load_from_json ::
  "('a \<Rightarrow> string) \<Rightarrow> ('b \<Rightarrow> error + int) \<Rightarrow> ('c \<Rightarrow> error + rat) \<Rightarrow>
   ('a, 'b, 'c) json_data \<Rightarrow> Tournament \<Rightarrow> error + Tournament" where
  "load_from_json py_str py_int py_float json_data t =
     (case json_data of
        None \<Rightarrow> Inl (ValueError ''JSON must contain 'players' field'')
      | Some ds \<Rightarrow>
          (case load_players py_str py_int py_float ds t of
             Inl e \<Rightarrow> Inl e
           | Inr t' \<Rightarrow>
               Inr (if players t' \<noteq> []
                    then t'\<lparr>current_round := max_games (objs t') (players t') + 1\<rparr>
                    else t')))"

text \<open>
  \<^verbatim>\<open>self.players.sort(key=lambda p: (-p.score, -p.rating))\<close> is a stable sort on
  the lexicographically ordered key pairs; \<open>sort_key\<close> is the stable insertion
  sort. The loop over \<^verbatim>\<open>enumerate(self.players)\<close> then writes the ranks.
\<close>

fun assign_ranks :: "(nat \<times> ref) list \<Rightarrow> store \<Rightarrow> store" where
  "assign_ranks [] h = h"
| "assign_ranks ((i, p) # rest) h = assign_ranks rest (h[p := (h ! p)\<lparr>rank := int i + 1\<rparr>])"

definition update_ranks :: "Tournament \<Rightarrow> Tournament" where
  "update_ranks t =
     (let sorted = sort_key (\<lambda>p. (- score (objs t ! p), - rating (objs t ! p))) (players t)
      in t\<lparr>players := sorted, objs := assign_ranks (enumerate 0 sorted) (objs t)\<rparr>)"

definition Tournament_init ::
  "('a \<Rightarrow> string) \<Rightarrow> ('b \<Rightarrow> error + int) \<Rightarrow> ('c \<Rightarrow> error + rat) \<Rightarrow>
   ('a, 'b, 'c) json_data \<Rightarrow> error + Tournament" where
  "Tournament_init py_str py_int py_float json_data =
     (case load_from_json py_str py_int py_float json_data
             \<lparr>objs = [], players = [], current_round = 1\<rparr> of
        Inl e \<Rightarrow> Inl e
      | Inr t \<Rightarrow> Inr (update_ranks t))"

section \<open>The pairing engine\<close>

text \<open>
  \<^verbatim>\<open>xs.remove(x)\<close>: deletes the first item that is \<^verbatim>\<open>x\<close> or equal to it, and
  raises \<^verbatim>\<open>ValueError\<close> if there is none.
\<close>

fun list_remove :: "store \<Rightarrow> ref list \<Rightarrow> ref \<Rightarrow> error + ref list" where
  "list_remove h [] x = Inl (ValueError ''list.remove(x): x not in list'')"
| "list_remove h (y # ys) x =
     (if y = x \<or> h ! y = h ! x then Inr ys
      else (case list_remove h ys x of Inl e \<Rightarrow> Inl e | Inr zs \<Rightarrow> Inr (y # zs)))"

definition set_has_bye :: "store \<Rightarrow> ref \<Rightarrow> store" where
  "set_has_bye h p = h[p := (h ! p)\<lparr>has_bye := True\<rparr>]"

text \<open>
  \<^verbatim>\<open>max(ps, key=lambda p: p.rank)\<close>: the first item with the largest key;
  \<^verbatim>\<open>ValueError\<close> on an empty list.
\<close>

fun max_rank_from :: "store \<Rightarrow> ref \<Rightarrow> ref list \<Rightarrow> ref" where
  "max_rank_from h best [] = best"
| "max_rank_from h best (p # ps) =
     max_rank_from h (if rank (h ! p) > rank (h ! best) then p else best) ps"

definition max_by_rank :: "store \<Rightarrow> ref list \<Rightarrow> error + ref" where
  "max_by_rank h ps =
     (case ps of [] \<Rightarrow> Inl (ValueError ''max() arg is an empty sequence'')
      | p # rest \<Rightarrow> Inr (max_rank_from h p rest))"

definition select_bye_player :: "store \<Rightarrow> ref list \<Rightarrow> error + ref" where
  "select_bye_player h ps =
     (let no_bye_players = filter (\<lambda>p. \<not> has_bye (h ! p)) ps
      in if no_bye_players \<noteq> [] then max_by_rank h no_bye_players
         else max_by_rank h ps)"

text \<open>
  \<^verbatim>\<open>find_best_opponent\<close> returns the opponent and, as a second component, the
  list \<^verbatim>\<open>candidates\<close> as the call leaves it: when no new opponent exists,
  \<^verbatim>\<open>valid_opponents\<close> is the list \<^verbatim>\<open>candidates\<close> itself and the in-place
  sort reorders the caller's pool.
\<close>

definition find_best_opponent :: "store \<Rightarrow> ref \<Rightarrow> ref list \<Rightarrow> ref option \<times> ref list" where
  "find_best_opponent h player candidates =
     (let key = (\<lambda>p. \<bar>score (h ! p) - score (h ! player)\<bar>);
          valid_opponents = filter (\<lambda>p. id_of (h ! p) \<notin> set (opponents (h ! player))) candidates
      in if valid_opponents \<noteq> []
         then (Some (hd (sort_key key valid_opponents)), candidates)
         else if candidates = [] then (None, candidates)
         else (let sorted = sort_key key candidates in (Some (hd sorted), sorted)))"

definition assign_colors :: "store \<Rightarrow> ref \<Rightarrow> ref \<Rightarrow> ref \<times> ref" where
  "assign_colors h player1 player2 =
     (if color_balance (h ! player1) > color_balance (h ! player2) then (player2, player1)
      else if color_balance (h ! player2) > color_balance (h ! player1) then (player1, player2)
      else if rating (h ! player1) \<ge> rating (h ! player2) then (player1, player2)
      else (player2, player1))"

text \<open>The loop over \<^verbatim>\<open>late_joiners\<close>; the state is the store, the pool and the pairings.\<close>

fun late_joiner_loop ::
  "ref list \<Rightarrow> store \<times> ref list \<times> Pairing list \<Rightarrow> error + store \<times> ref list \<times> Pairing list" where
  "late_joiner_loop [] s = Inr s"
| "late_joiner_loop (late_joiner # rest) (h, available_players, pairings) =
     (case list_remove h available_players late_joiner of
        Inl e \<Rightarrow> Inl e
      | Inr available' \<Rightarrow>
          late_joiner_loop rest
            (set_has_bye h late_joiner, available',
             pairings @ [Pairing_init (id_of (set_has_bye h late_joiner ! late_joiner)) '''']))"

text \<open>Lines 146 to 154: the late joiners and their byes.\<close>

definition late_joiners :: "Tournament \<Rightarrow> ref list" where
  "late_joiners t =
     (let available_players = players t;
          mg = max_games (objs t) available_players
      in filter (\<lambda>p. length (color_history (objs t ! p)) < mg) available_players)"

definition late_joiner_byes :: "Tournament \<Rightarrow> error + store \<times> ref list \<times> Pairing list" where
  "late_joiner_byes t = late_joiner_loop (late_joiners t) (objs t, players t, [])"

text \<open>Lines 157 to 161: the bye of an odd pool.\<close>

definition odd_pool_bye ::
  "store \<times> ref list \<times> Pairing list \<Rightarrow> error + store \<times> ref list \<times> Pairing list" where
  "odd_pool_bye s =
     (case s of (h, available_players, pairings) \<Rightarrow>
        if length available_players mod 2 = 1 then
          (case select_bye_player h available_players of
             Inl e \<Rightarrow> Inl e
           | Inr bye_player \<Rightarrow>
               (case list_remove h available_players bye_player of
                  Inl e \<Rightarrow> Inl e
                | Inr available' \<Rightarrow>
                    Inr (set_has_bye h bye_player, available',
                         pairings @ [Pairing_init (id_of (set_has_bye h bye_player ! bye_player)) ''''])))
        else Inr s)"

text \<open>
  One iteration of the \<^verbatim>\<open>while\<close> loop (lines 165 to 175) on a pool of at
  least two players: the pairing it appends and the pool it leaves.
\<close>

definition match_step :: "store \<Rightarrow> ref list \<Rightarrow> error + Pairing \<times> ref list" where
  "match_step h available_players =
     (let player1 = hd available_players;
          popped = tl available_players
      in case find_best_opponent h player1 popped of
           (None, pool) \<Rightarrow>
             Inl (Exception (''No valid opponent found for player '' @ id_of (h ! player1)))
         | (Some player2, pool) \<Rightarrow>
             (case list_remove h pool player2 of
                Inl e \<Rightarrow> Inl e
              | Inr pool' \<Rightarrow>
                  (case assign_colors h player1 player2 of
                     (white_player, black_player) \<Rightarrow>
                       Inr (Pairing_init (id_of (h ! white_player)) (id_of (h ! black_player)),
                            pool'))))"

lemma list_remove_length:
  "list_remove h xs x = Inr ys \<Longrightarrow> Suc (length ys) = length xs"
  by (induction xs arbitrary: ys) (auto split: if_splits sum.splits)

lemma find_best_opponent_length:
  "length (snd (find_best_opponent h p cs)) = length cs"
  by (simp add: find_best_opponent_def Let_def)

lemma match_step_length:
  assumes "match_step h pool = Inr (pr, pool')" and "pool \<noteq> []"
  shows "length pool' < length pool"
proof -
  obtain o2 pl where f: "find_best_opponent h (hd pool) (tl pool) = (o2, pl)"
    by (cases "find_best_opponent h (hd pool) (tl pool)")
  from find_best_opponent_length [of h "hd pool" "tl pool"] f
  have len: "length pl = length (tl pool)" by simp
  from assms f obtain p2 where "list_remove h pl p2 = Inr pool'"
    by (auto simp: match_step_def Let_def split: option.splits sum.splits prod.splits)
  from list_remove_length [OF this] len assms(2) show ?thesis by simp
qed

function match_loop :: "store \<Rightarrow> ref list \<Rightarrow> Pairing list \<Rightarrow> error + Pairing list" where
  "match_loop h available_players pairings =
     (if length available_players \<ge> 2 then
        (case match_step h available_players of
           Inl e \<Rightarrow> Inl e
         | Inr (pr, pool') \<Rightarrow> match_loop h pool' (pairings @ [pr]))
      else Inr pairings)"
  by pat_completeness auto
termination
proof (relation "measure (\<lambda>(h, pool, ps). length pool)")
  show "wf (measure (\<lambda>(h, pool, ps). length pool))" by simp
next
  fix h :: store and pool :: "ref list" and ps :: "Pairing list" and x2 pr pool'
  assume "2 \<le> length pool" and "match_step h pool = Inr x2" and "(pr, pool') = x2"
  then have "match_step h pool = Inr (pr, pool')" and "pool \<noteq> []" by auto
  from match_step_length [OF this]
  show "((h, pool', ps @ [pr]), (h, pool, ps)) \<in> measure (\<lambda>(h, pool, ps). length pool)"
    by simp
qed

declare match_loop.simps [simp del]

text \<open>
  \<^verbatim>\<open>compute_pairings\<close> returns the pairings; the store it leaves behind (the
  \<^verbatim>\<open>has_bye\<close> flags it has set) is the second component.
\<close>

definition compute_pairings :: "Tournament \<Rightarrow> error + Pairing list \<times> store" where
  "compute_pairings t =
     (case late_joiner_byes t of
        Inl e \<Rightarrow> Inl e
      | Inr s1 \<Rightarrow>
          (case odd_pool_bye s1 of
             Inl e \<Rightarrow> Inl e
           | Inr (h, available_players, pairings) \<Rightarrow>
               (case match_loop h available_players pairings of
                  Inl e \<Rightarrow> Inl e
                | Inr result \<Rightarrow> Inr (result, h))))"

text \<open>
  The \<^verbatim>\<open>except\<close> clauses of the request handlers (lines 288 to 291): a
  \<^verbatim>\<open>ValueError\<close> is answered with status 400 and "Invalid input", every other
  exception with status 500 and "Internal error". \<open>str_of_error\<close> is \<^verbatim>\<open>str(e)\<close>;
  for a \<^verbatim>\<open>KeyError\<close> it is the key in quotes.
\<close>

definition str_of_error :: "error \<Rightarrow> string" where
  "str_of_error e =
     (case e of ValueError m \<Rightarrow> m | KeyError k \<Rightarrow> [CHR 0x27] @ k @ [CHR 0x27] | Exception m \<Rightarrow> m)"

definition http_error :: "error \<Rightarrow> nat \<times> string" where
  "http_error e =
     (case e of
        ValueError m \<Rightarrow> (400, ''Invalid input: '' @ str_of_error e)
      | _ \<Rightarrow> (500, ''Internal error: '' @ str_of_error e))"

text \<open>
  The dictionary \<^verbatim>\<open>.dict()\<close> makes of a validated \<^verbatim>\<open>PlayerInput\<close>: all six
  keys are present and the values have their declared types.
\<close>

definition PlayerInput_dict ::
  "string \<Rightarrow> int \<Rightarrow> rat \<Rightarrow> string list \<Rightarrow> string list \<Rightarrow> bool \<Rightarrow> (string, int, rat) player_data" where
  "PlayerInput_dict i r s ch opp hb =
     \<lparr>pd_id = Some i, pd_rating = Some r, pd_score = Some s,
      pd_color_history = Some ch, pd_opponents = Some opp, pd_has_bye = Some hb\<rparr>"

section \<open>Vocabulary of the specification\<close>

text \<open>
  What the constructor establishes: \<^verbatim>\<open>tournament.players\<close> lists every object
  of the store once, and the object at position \<open>i\<close> has rank \<open>i + 1\<close>.
\<close>

definition snapshot :: "Tournament \<Rightarrow> bool" where
  "snapshot t \<longleftrightarrow>
     distinct (players t) \<and> set (players t) = {..<length (objs t)} \<and>
     (\<forall>i<length (players t). rank (objs t ! (players t ! i)) = int i + 1)"

definition games_played :: "store \<Rightarrow> ref \<Rightarrow> nat" where
  "games_played h p = length (color_history (h ! p))"

text \<open>An id occurs in a pairing as its white id or as its black id.\<close>

definition occurs_in :: "string \<Rightarrow> Pairing \<Rightarrow> bool" where
  "occurs_in pid p \<longleftrightarrow> white p = pid \<or> black p = pid"

text \<open>The invariant the specification states for a pairing.\<close>

definition well_formed_pairing :: "Pairing \<Rightarrow> bool" where
  "well_formed_pairing p \<longleftrightarrow> (is_bye p \<longleftrightarrow> black p = '''') \<and> white p \<noteq> ''''"

text \<open>Byes count once, decided pairings twice.\<close>

definition parity :: "Tournament \<Rightarrow> Pairing list \<Rightarrow> bool" where
  "parity t ps \<longleftrightarrow>
     length (filter is_bye ps) + 2 * length (filter (\<lambda>p. \<not> is_bye p) ps) = length (players t)"




text \<open>The references of a list of decided pairs, in order.\<close>

fun pair_refs :: "(ref \<times> ref) list \<Rightarrow> ref list" where
  "pair_refs [] = []"
| "pair_refs ((w, b) # ps) = w # b # pair_refs ps"

text \<open>An error the handlers report as invalid input.\<close>

definition input_error :: "error \<Rightarrow> bool" where
  "input_error e \<longleftrightarrow> fst (http_error e) = 400"

text \<open>
  A record that lacks a required key, or whose rating or score the conversion
  rejects.
\<close>

definition missing_or_malformed ::
  "('b \<Rightarrow> error + int) \<Rightarrow> ('c \<Rightarrow> error + rat) \<Rightarrow> ('a, 'b, 'c) player_data \<Rightarrow> bool" where
  "missing_or_malformed py_int py_float d \<longleftrightarrow>
     pd_id d = None \<or>
     (case pd_rating d of None \<Rightarrow> True | Some v \<Rightarrow> isl (py_int v)) \<or>
     (case pd_score d of None \<Rightarrow> True | Some v \<Rightarrow> isl (py_float v))"

subsection \<open>A sample tournament\<close>

text \<open>
  Four players in the input order cy, ann, eve, bob. Eve has played one game,
  the others two; cy has had a bye; ann, bob and cy have all met.
\<close>

definition example_records :: "(string, int, rat) player_data list" where
  "example_records =
     [PlayerInput_dict ''cy'' 1700 0 [''white'', ''black''] [''bob'', ''ann''] True,
      PlayerInput_dict ''ann'' 1800 2 [''white'', ''black''] [''bob'', ''cy''] False,
      PlayerInput_dict ''eve'' 1900 (3 / 2) [''white''] [''zed''] False,
      PlayerInput_dict ''bob'' 1700 1 [''black'', ''white''] [''ann'', ''cy''] False]"

definition example_snapshot :: Tournament where
  "example_snapshot =
     \<lparr>objs =
        [(Player_init ''cy'' 1700 0 [''white'', ''black''] [''bob'', ''ann''] True)\<lparr>rank := 4\<rparr>,
         (Player_init ''ann'' 1800 2 [''white'', ''black''] [''bob'', ''cy''] False)\<lparr>rank := 1\<rparr>,
         (Player_init ''eve'' 1900 (3 / 2) [''white''] [''zed''] False)\<lparr>rank := 2\<rparr>,
         (Player_init ''bob'' 1700 1 [''black'', ''white''] [''ann'', ''cy''] False)\<lparr>rank := 3\<rparr>],
      players = [1, 2, 3, 0], current_round = 3\<rparr>"

section \<open>The constructor\<close>

lemma assign_ranks_length [simp]: "length (assign_ranks xs h) = length h"
  by (induction xs h rule: assign_ranks.induct) auto

lemma assign_ranks_other:
  "q \<notin> snd ` set xs \<Longrightarrow> assign_ranks xs h ! q = h ! q"
  by (induction xs h rule: assign_ranks.induct) auto

lemma assign_ranks_modulo_rank:
  "(assign_ranks xs h ! q)\<lparr>rank := r\<rparr> = (h ! q)\<lparr>rank := r\<rparr>"
proof (induction xs h rule: assign_ranks.induct)
  case (1 h)
  show ?case by simp
next
  case (2 i p rest h)
  show ?case
  proof (cases "q = p \<and> p < length h")
    case True
    with 2 show ?thesis by simp
  next
    case False
    then have "h[p := (h ! p)\<lparr>rank := int i + 1\<rparr>] ! q = h ! q"
      by (cases "q = p") (auto simp: list_update_beyond)
    with 2 show ?thesis by simp
  qed
qed

lemma assign_ranks_score [simp]: "score (assign_ranks xs h ! q) = score (h ! q)"
  using arg_cong [OF assign_ranks_modulo_rank [where xs = xs and h = h and q = q and r = 0], of score]
  by simp

lemma assign_ranks_rating [simp]: "rating (assign_ranks xs h ! q) = rating (h ! q)"
  using arg_cong [OF assign_ranks_modulo_rank [where xs = xs and h = h and q = q and r = 0], of rating]
  by simp

lemma assign_ranks_hit:
  "distinct (map snd xs) \<Longrightarrow> (i, p) \<in> set xs \<Longrightarrow> p < length h \<Longrightarrow>
     rank (assign_ranks xs h ! p) = int i + 1"
proof (induction xs h rule: assign_ranks.induct)
  case (1 h)
  then show ?case by simp
next
  case (2 j q rest h)
  show ?case
  proof (cases "(i, p) = (j, q)")
    case True
    with 2 have "p \<notin> snd ` set rest" by auto
    then have "assign_ranks rest (h[q := (h ! q)\<lparr>rank := int j + 1\<rparr>]) ! p
        = h[q := (h ! q)\<lparr>rank := int j + 1\<rparr>] ! p"
      by (rule assign_ranks_other)
    with True 2 show ?thesis by simp
  next
    case False
    with 2 show ?thesis by auto
  qed
qed

lemma load_players_refs:
  "load_players cs ci cf ds t = Inr t' \<Longrightarrow> players t = [0..<length (objs t)] \<Longrightarrow>
     players t' = [0..<length (objs t')]"
  by (induction ds arbitrary: t) (auto split: sum.splits)



lemma update_ranks_snapshot:
  assumes "players t = [0..<length (objs t)]"
  shows "snapshot (update_ranks t)"
proof -
  let ?s = "sort_key (\<lambda>p. (- score (objs t ! p), - rating (objs t ! p))) (players t)"
  have d: "distinct ?s" and s: "set ?s = {..<length (objs t)}" and l: "length ?s = length (objs t)"
    using assms by (auto simp: atLeast0LessThan)
  have "rank (assign_ranks (enumerate 0 ?s) (objs t) ! (?s ! i)) = int i + 1" if "i < length ?s" for i
  proof (rule assign_ranks_hit)
    show "distinct (map snd (enumerate 0 ?s))" using d by simp
    show "(i, ?s ! i) \<in> set (enumerate 0 ?s)" using that by (simp add: in_set_enumerate_eq)
    show "?s ! i < length (objs t)" using that s nth_mem by blast
  qed
  then show ?thesis
    using d s by (simp add: snapshot_def update_ranks_def Let_def)
qed

lemma Tournament_init_snapshot:
  assumes "Tournament_init cs ci cf json = Inr t"
  shows "snapshot t"
proof -
  from assms obtain ds t1 where
    ld: "load_players cs ci cf ds \<lparr>objs = [], players = [], current_round = 1\<rparr> = Inr t1"
    and t: "t = update_ranks (if players t1 \<noteq> [] then t1\<lparr>current_round := max_games (objs t1) (players t1) + 1\<rparr> else t1)"
    by (auto simp: Tournament_init_def load_from_json_def split: option.splits sum.splits)
  from load_players_refs [OF ld] have "players t1 = [0..<length (objs t1)]" by simp
  then show ?thesis unfolding t by (intro update_ranks_snapshot) auto
qed

lemma snapshot_rank_inj:
  assumes "snapshot t"
  shows "inj_on (\<lambda>p. rank (objs t ! p)) (set (players t))"
proof (rule inj_onI)
  fix p q
  assume "p \<in> set (players t)" "q \<in> set (players t)"
    and eq: "rank (objs t ! p) = rank (objs t ! q)"
  then obtain i j where i: "i < length (players t)" "players t ! i = p"
    and j: "j < length (players t)" "players t ! j = q"
    by (auto simp: in_set_conv_nth)
  from assms i j eq have "int i + 1 = int j + 1" by (auto simp: snapshot_def)
  with i j show "p = q" by simp
qed

lemma snapshot_ranks_sorted:
  assumes "snapshot t"
  shows "sorted_wrt (<) (map (\<lambda>p. rank (objs t ! p)) (players t))"
  using assms by (auto simp: snapshot_def sorted_wrt_iff_nth_less)

lemma snapshot_ref_in_store:
  "snapshot t \<Longrightarrow> p \<in> set (players t) \<Longrightarrow> p < length (objs t) \<and> objs t ! p \<in> set (objs t)"
  by (auto simp: snapshot_def)

lemma snapshot_id_in_store:
  "snapshot t \<Longrightarrow> p \<in> set (players t) \<Longrightarrow> id_of (objs t ! p) \<in> set (map id_of (objs t))"
  by (auto simp: snapshot_def)

subsection \<open>Stability of the sort\<close>



subsection \<open>Records that do not load\<close>

lemma load_player_error:
  assumes "missing_or_malformed ci cf d"
  shows "\<exists>e. load_player cs ci cf d = Inl e \<and>
      (e = KeyError ''id'' \<and> pd_id d = None \<or>
       e = KeyError ''rating'' \<and> pd_rating d = None \<or>
       e = KeyError ''score'' \<and> pd_score d = None \<or>
       (\<exists>v. pd_rating d = Some v \<and> ci v = Inl e) \<or>
       (\<exists>v. pd_score d = Some v \<and> cf v = Inl e))"
proof (cases "pd_id d")
  case None
  then show ?thesis by (simp add: load_player_def subscript_def)
next
  case (Some i)
  note i = this
  show ?thesis
  proof (cases "pd_rating d")
    case None
    with i show ?thesis by (simp add: load_player_def subscript_def)
  next
    case (Some rv)
    note rv = this
    show ?thesis
    proof (cases "ci rv")
      case (Inl e)
      with i rv show ?thesis by (simp add: load_player_def subscript_def)
    next
      case (Inr r)
      note r = this
      show ?thesis
      proof (cases "pd_score d")
        case None
        with i rv r show ?thesis by (simp add: load_player_def subscript_def)
      next
        case (Some sv)
        with assms i rv r obtain e where "cf sv = Inl e"
          by (cases "cf sv") (auto simp: missing_or_malformed_def)
        with i rv r Some show ?thesis by (simp add: load_player_def subscript_def)
      qed
    qed
  qed
qed

lemma load_players_error:
  assumes "\<exists>d\<in>set ds. missing_or_malformed ci cf d"
  shows "\<exists>e d. load_players cs ci cf ds t = Inl e \<and> d \<in> set ds \<and> load_player cs ci cf d = Inl e"
  using assms
proof (induction ds arbitrary: t)
  case Nil
  then show ?case by simp
next
  case (Cons d ds)
  show ?case
  proof (cases "load_player cs ci cf d")
    case (Inl e)
    then show ?thesis by auto
  next
    case (Inr p)
    with load_player_error [of ci cf d cs] have "\<not> missing_or_malformed ci cf d" by auto
    with Cons.prems have "\<exists>d\<in>set ds. missing_or_malformed ci cf d" by simp
    from Cons.IH [OF this, of "t\<lparr>objs := objs t @ [p], players := players t @ [length (objs t)]\<rparr>"]
    obtain e d' where "load_players cs ci cf ds
        (t\<lparr>objs := objs t @ [p], players := players t @ [length (objs t)]\<rparr>) = Inl e"
      and "d' \<in> set ds" and "load_player cs ci cf d' = Inl e"
      by blast
    with Inr have "load_players cs ci cf (d # ds) t = Inl e \<and> d' \<in> set (d # ds) \<and>
        load_player cs ci cf d' = Inl e"
      by simp
    then show ?thesis by blast
  qed
qed

section \<open>The store under the bye flag\<close>

lemma set_has_bye_length [simp]: "length (set_has_bye h p) = length h"
  by (simp add: set_has_bye_def)

lemma set_has_bye_nth:
  "set_has_bye h p ! q = (if q = p \<and> p < length h then (h ! p)\<lparr>has_bye := True\<rparr> else h ! q)"
  by (cases "q = p") (auto simp: set_has_bye_def list_update_beyond)

lemma set_has_bye_id [simp]: "id_of (set_has_bye h p ! q) = id_of (h ! q)"
  by (simp add: set_has_bye_nth)

lemma set_has_bye_rank [simp]: "rank (set_has_bye h p ! q) = rank (h ! q)"
  by (simp add: set_has_bye_nth)

lemma set_has_bye_other: "q \<noteq> p \<Longrightarrow> set_has_bye h p ! q = h ! q"
  by (simp add: set_has_bye_nth)

lemma fold_set_has_bye_length [simp]:
  "length (fold (\<lambda>p h. set_has_bye h p) ps h) = length h"
  by (induction ps arbitrary: h) auto

lemma fold_set_has_bye_nth:
  "q < length h \<Longrightarrow>
   fold (\<lambda>p h. set_has_bye h p) ps h ! q =
     (if q \<in> set ps then (h ! q)\<lparr>has_bye := True\<rparr> else h ! q)"
  by (induction ps arbitrary: h) (auto simp: set_has_bye_nth)

lemma fold_set_has_bye_id [simp]:
  "id_of (fold (\<lambda>p h. set_has_bye h p) ps h ! q) = id_of (h ! q)"
  by (induction ps arbitrary: h) auto

lemma fold_set_has_bye_rank [simp]:
  "rank (fold (\<lambda>p h. set_has_bye h p) ps h ! q) = rank (h ! q)"
  by (induction ps arbitrary: h) auto

lemma fold_set_has_bye_other:
  "q \<notin> set ps \<Longrightarrow> fold (\<lambda>p h. set_has_bye h p) ps h ! q = h ! q"
  by (induction ps arbitrary: h) (auto simp: set_has_bye_other)

section \<open>The phases of the engine\<close>

subsection \<open>Removing from the pool\<close>

lemma list_remove_succeeds:
  "x \<in> set xs \<Longrightarrow> \<exists>ys. list_remove h xs x = Inr ys"
  by (induction xs) (auto split: sum.splits)

lemma list_remove_remove1:
  "x \<in> set xs \<Longrightarrow> inj_on (\<lambda>p. rank (h ! p)) (set xs) \<Longrightarrow>
     list_remove h xs x = Inr (remove1 x xs)"
proof (induction xs)
  case Nil
  then show ?case by simp
next
  case (Cons y ys)
  show ?case
  proof (cases "y = x")
    case True
    then show ?thesis by simp
  next
    case False
    with Cons.prems have "rank (h ! y) \<noteq> rank (h ! x)"
      by (auto simp: inj_on_def)
    then have ne: "h ! y \<noteq> h ! x" by auto
    from False Cons.prems have "x \<in> set ys" "inj_on (\<lambda>p. rank (h ! p)) (set ys)"
      by (auto simp: inj_on_def)
    from Cons.IH [OF this] False ne show ?thesis by simp
  qed
qed

subsection \<open>Late joiners\<close>

lemma fold_max_Max:
  "fold (\<lambda>q m. max m (f q)) xs (m0::nat) = Max (insert m0 (f ` set xs))"
proof (induction xs arbitrary: m0)
  case Nil
  show ?case by simp
next
  case (Cons x xs)
  have "Max (insert (max m0 (f x)) (f ` set xs)) = Max (insert m0 (insert (f x) (f ` set xs)))"
    by (cases "xs = []") (auto simp: max.assoc max.commute max.left_commute)
  with Cons show ?case by simp
qed

lemma max_games_Max:
  "ps \<noteq> [] \<Longrightarrow> max_games h ps = Max (games_played h ` set ps)"
  by (cases ps) (auto simp: max_games_def fold_max_Max games_played_def [abs_def])

lemma late_joiners_subseq:
  "late_joiners t = filter (\<lambda>p. length (color_history (objs t ! p)) <
       max_games (objs t) (players t)) (players t)"
  by (simp add: late_joiners_def Let_def)

lemma late_joiner_loop_run:
  assumes "distinct av" "distinct ljs" "set ljs \<subseteq> set av"
    and "inj_on (\<lambda>p. rank (h ! p)) (set av)"
  shows "late_joiner_loop ljs (h, av, ps) =
           Inr (fold (\<lambda>p h. set_has_bye h p) ljs h,
                filter (\<lambda>p. p \<notin> set ljs) av,
                ps @ map (\<lambda>p. Pairing_init (id_of (h ! p)) '''') ljs)"
  using assms
proof (induction ljs arbitrary: h av ps)
  case Nil
  then show ?case by simp
next
  case (Cons lj rest)
  from Cons.prems have rm: "list_remove h av lj = Inr (remove1 lj av)"
    by (intro list_remove_remove1) auto
  have r1: "remove1 lj av = filter (\<lambda>p. p \<noteq> lj) av"
    using Cons.prems(1) by (simp add: distinct_remove1_removeAll removeAll_filter_not_eq) metis
  have "late_joiner_loop rest (set_has_bye h lj, remove1 lj av,
            ps @ [Pairing_init (id_of (set_has_bye h lj ! lj)) '''']) =
          Inr (fold (\<lambda>p h. set_has_bye h p) rest (set_has_bye h lj),
               filter (\<lambda>p. p \<notin> set rest) (remove1 lj av),
               (ps @ [Pairing_init (id_of (set_has_bye h lj ! lj)) '''']) @
                 map (\<lambda>p. Pairing_init (id_of (set_has_bye h lj ! p)) '''') rest)"
  proof (rule Cons.IH)
    show "distinct (remove1 lj av)" using Cons.prems(1) by simp
    show "distinct rest" using Cons.prems(2) by simp
    show "set rest \<subseteq> set (remove1 lj av)" using Cons.prems by auto
    show "inj_on (\<lambda>p. rank (set_has_bye h lj ! p)) (set (remove1 lj av))"
      using Cons.prems(1,4) by (auto simp: inj_on_def)
  qed
  moreover have "filter (\<lambda>p. p \<notin> set rest) (remove1 lj av) = filter (\<lambda>p. p \<notin> set (lj # rest)) av"
    unfolding r1 by (auto intro: filter_cong)
  ultimately show ?case using rm by simp
qed

lemma late_joiner_byes_run:
  assumes "snapshot t"
  shows "late_joiner_byes t =
           Inr (fold (\<lambda>p h. set_has_bye h p) (late_joiners t) (objs t),
                filter (\<lambda>p. p \<notin> set (late_joiners t)) (players t),
                map (\<lambda>p. Pairing_init (id_of (objs t ! p)) '''') (late_joiners t))"
proof -
  have "late_joiner_loop (late_joiners t) (objs t, players t, []) =
           Inr (fold (\<lambda>p h. set_has_bye h p) (late_joiners t) (objs t),
                filter (\<lambda>p. p \<notin> set (late_joiners t)) (players t),
                [] @ map (\<lambda>p. Pairing_init (id_of (objs t ! p)) '''') (late_joiners t))"
  proof (rule late_joiner_loop_run)
    show "distinct (players t)" using assms by (simp add: snapshot_def)
    then show "distinct (late_joiners t)" by (simp add: late_joiners_subseq)
    show "set (late_joiners t) \<subseteq> set (players t)" by (auto simp: late_joiners_subseq)
    show "inj_on (\<lambda>p. rank (objs t ! p)) (set (players t))"
      using assms by (rule snapshot_rank_inj)
  qed
  then show ?thesis by (simp add: late_joiner_byes_def)
qed

subsection \<open>The bye of an odd pool\<close>

lemma max_rank_from_props:
  "max_rank_from h b ps \<in> set (b # ps) \<and>
   (\<forall>p\<in>set (b # ps). rank (h ! p) \<le> rank (h ! max_rank_from h b ps))"
proof (induction ps arbitrary: b)
  case Nil
  show ?case by simp
next
  case (Cons q qs)
  let ?b = "if rank (h ! q) > rank (h ! b) then q else b"
  from Cons.IH [of ?b] show ?case by (auto split: if_splits)
qed

lemma max_by_rank_props:
  "ps \<noteq> [] \<Longrightarrow> \<exists>b. max_by_rank h ps = Inr b \<and> b \<in> set ps \<and>
      (\<forall>p\<in>set ps. rank (h ! p) \<le> rank (h ! b))"
  using max_rank_from_props [of h "hd ps" "tl ps"]
  by (cases ps) (auto simp: max_by_rank_def)

lemma select_bye_player_props:
  assumes "ps \<noteq> []"
  shows "\<exists>b. select_bye_player h ps = Inr b \<and> b \<in> set ps \<and>
      (if \<exists>p\<in>set ps. \<not> has_bye (h ! p)
       then \<not> has_bye (h ! b) \<and> (\<forall>p\<in>set ps. \<not> has_bye (h ! p) \<longrightarrow> rank (h ! p) \<le> rank (h ! b))
       else (\<forall>p\<in>set ps. rank (h ! p) \<le> rank (h ! b)))"
proof (cases "filter (\<lambda>p. \<not> has_bye (h ! p)) ps = []")
  case True
  then have "\<not> (\<exists>p\<in>set ps. \<not> has_bye (h ! p))" by (auto simp: filter_empty_conv)
  with True max_by_rank_props [OF assms, of h] show ?thesis
    by (simp add: select_bye_player_def)
next
  case False
  then have ex: "\<exists>p\<in>set ps. \<not> has_bye (h ! p)" by (auto simp: filter_empty_conv)
  from max_by_rank_props [OF False, of h] obtain b where
    b: "max_by_rank h (filter (\<lambda>p. \<not> has_bye (h ! p)) ps) = Inr b"
       "b \<in> set (filter (\<lambda>p. \<not> has_bye (h ! p)) ps)"
       "\<forall>p\<in>set (filter (\<lambda>p. \<not> has_bye (h ! p)) ps). rank (h ! p) \<le> rank (h ! b)"
    by blast
  with False ex show ?thesis by (auto simp: select_bye_player_def)
qed

lemma odd_pool_bye_odd:
  assumes "odd (length pool)" and "inj_on (\<lambda>p. rank (h ! p)) (set pool)"
  shows "\<exists>b. select_bye_player h pool = Inr b \<and> b \<in> set pool \<and>
      (if \<exists>p\<in>set pool. \<not> has_bye (h ! p)
       then \<not> has_bye (h ! b) \<and>
            (\<forall>p\<in>set pool. \<not> has_bye (h ! p) \<longrightarrow> rank (h ! p) \<le> rank (h ! b))
       else (\<forall>p\<in>set pool. rank (h ! p) \<le> rank (h ! b))) \<and>
      odd_pool_bye (h, pool, ps) =
        Inr (set_has_bye h b, remove1 b pool, ps @ [Pairing_init (id_of (h ! b)) ''''])"
proof -
  from assms(1) have ne: "pool \<noteq> []" by auto
  from select_bye_player_props [OF ne, of h] obtain b where
    s: "select_bye_player h pool = Inr b" and b: "b \<in> set pool"
    and f: "if \<exists>p\<in>set pool. \<not> has_bye (h ! p)
       then \<not> has_bye (h ! b) \<and>
            (\<forall>p\<in>set pool. \<not> has_bye (h ! p) \<longrightarrow> rank (h ! p) \<le> rank (h ! b))
       else (\<forall>p\<in>set pool. rank (h ! p) \<le> rank (h ! b))"
    by blast
  from assms(1) have "length pool mod 2 = 1" by (simp add: odd_iff_mod_2_eq_one)
  with s list_remove_remove1 [OF b assms(2)]
  have "odd_pool_bye (h, pool, ps) =
        Inr (set_has_bye h b, remove1 b pool, ps @ [Pairing_init (id_of (h ! b)) ''''])"
    by (simp add: odd_pool_bye_def)
  with s b f show ?thesis by blast
qed

lemma odd_pool_bye_even:
  "even (length pool) \<Longrightarrow> odd_pool_bye (h, pool, ps) = Inr (h, pool, ps)"
  by (simp add: odd_pool_bye_def)

subsection \<open>The best opponent\<close>

lemma hd_insort_key:
  "hd (insort_key f x ys) = (if ys = [] \<or> f x \<le> f (hd ys) then x else hd ys)"
  by (cases ys) auto

lemma hd_sort_key_first_min:
  "xs \<noteq> [] \<Longrightarrow>
     \<exists>pre post. xs = pre @ hd (sort_key f xs) # post \<and>
        (\<forall>p\<in>set pre. f (hd (sort_key f xs)) < f p) \<and>
        (\<forall>p\<in>set post. f (hd (sort_key f xs)) \<le> f p)"
proof (induction xs)
  case Nil
  then show ?case by simp
next
  case (Cons x xs)
  show ?case
  proof (cases "xs = []")
    case True
    then have "x # xs = [] @ hd (sort_key f (x # xs)) # []" by simp
    then show ?thesis by (metis empty_iff empty_set)
  next
    case False
    let ?m = "hd (sort_key f xs)"
    from Cons.IH [OF False] obtain pre post where
      xs: "xs = pre @ ?m # post" and pre: "\<forall>p\<in>set pre. f ?m < f p"
      and post: "\<forall>p\<in>set post. f ?m \<le> f p"
      by blast
    have ne: "sort_key f xs \<noteq> []" using False by (metis length_sort length_0_conv)
    show ?thesis
    proof (cases "f x \<le> f ?m")
      case True
      then have h: "hd (sort_key f (x # xs)) = x" by (simp add: hd_insort_key)
      have "\<forall>p\<in>set xs. f x \<le> f p"
      proof
        fix p assume "p \<in> set xs"
        then have "p \<in> set pre \<or> p = ?m \<or> p \<in> set post" by (subst (asm) xs) auto
        with pre post have "f ?m \<le> f p" by auto
        with True show "f x \<le> f p" by simp
      qed
      then have "x # xs = [] @ x # xs \<and> (\<forall>p\<in>set []. f x < f p) \<and> (\<forall>p\<in>set xs. f x \<le> f p)"
        by simp
      then show ?thesis unfolding h by blast
    next
      case False
      with ne have h: "hd (sort_key f (x # xs)) = ?m" by (simp add: hd_insort_key)
      have "x # xs = (x # pre) @ ?m # post" using xs by simp
      moreover have "\<forall>p\<in>set (x # pre). f ?m < f p" using pre False by auto
      ultimately show ?thesis unfolding h using post by blast
    qed
  qed
qed

lemma filter_eq_split:
  "filter P xs = pre' @ b # post' \<Longrightarrow>
     \<exists>pre post. xs = pre @ b # post \<and> filter P pre = pre' \<and> filter P post = post' \<and> P b"
proof (induction pre' arbitrary: xs)
  case Nil
  then obtain us vs where "xs = us @ b # vs" "\<forall>u\<in>set us. \<not> P u" "P b" "post' = filter P vs"
    by (auto simp: filter_eq_Cons_iff)
  then have "xs = us @ b # vs \<and> filter P us = [] \<and> filter P vs = post' \<and> P b"
    by (simp add: filter_empty_conv)
  then show ?case by blast
next
  case (Cons y pre'')
  then obtain us vs where xs: "xs = us @ y # vs" and us: "\<forall>u\<in>set us. \<not> P u" and y: "P y"
    and vs: "filter P vs = pre'' @ b # post'"
    by (auto simp: filter_eq_Cons_iff)
  from Cons.IH [OF vs] obtain pre1 post1 where
    "vs = pre1 @ b # post1" "filter P pre1 = pre''" "filter P post1 = post'" "P b"
    by blast
  with xs us y have "xs = (us @ y # pre1) @ b # post1 \<and> filter P (us @ y # pre1) = y # pre'' \<and>
      filter P post1 = post' \<and> P b"
    by (simp add: filter_empty_conv)
  then show ?case by blast
qed

lemma find_best_opponent_props:
  assumes "cs \<noteq> []"
  shows "\<exists>b pool pre post.
      find_best_opponent h a cs = (Some b, pool) \<and> mset pool = mset cs \<and>
      cs = pre @ b # post \<and>
      (id_of (h ! b) \<notin> set (opponents (h ! a)) \<or>
         (\<forall>q\<in>set cs. id_of (h ! q) \<in> set (opponents (h ! a)))) \<and>
      (\<forall>p\<in>set pre.
         id_of (h ! p) \<notin> set (opponents (h ! a)) \<or>
           (\<forall>q\<in>set cs. id_of (h ! q) \<in> set (opponents (h ! a))) \<longrightarrow>
         \<bar>score (h ! b) - score (h ! a)\<bar> < \<bar>score (h ! p) - score (h ! a)\<bar>) \<and>
      (\<forall>p\<in>set post.
         id_of (h ! p) \<notin> set (opponents (h ! a)) \<or>
           (\<forall>q\<in>set cs. id_of (h ! q) \<in> set (opponents (h ! a))) \<longrightarrow>
         \<bar>score (h ! b) - score (h ! a)\<bar> \<le> \<bar>score (h ! p) - score (h ! a)\<bar>)"
proof -
  let ?P = "\<lambda>p. id_of (h ! p) \<notin> set (opponents (h ! a))"
  let ?k = "\<lambda>p. \<bar>score (h ! p) - score (h ! a)\<bar>"
  show ?thesis
  proof (cases "filter ?P cs = []")
    case True
    then have all: "\<forall>q\<in>set cs. id_of (h ! q) \<in> set (opponents (h ! a))"
      by (auto simp: filter_empty_conv)
    let ?b = "hd (sort_key ?k cs)"
    from hd_sort_key_first_min [OF assms, of ?k] obtain pre post where
      "cs = pre @ ?b # post" "\<forall>p\<in>set pre. ?k ?b < ?k p" "\<forall>p\<in>set post. ?k ?b \<le> ?k p"
      by blast
    moreover have "find_best_opponent h a cs = (Some ?b, sort_key ?k cs)"
      using True assms by (simp add: find_best_opponent_def Let_def)
    moreover have "mset (sort_key ?k cs) = mset cs" by simp
    ultimately show ?thesis using all by blast
  next
    case False
    let ?b = "hd (sort_key ?k (filter ?P cs))"
    from hd_sort_key_first_min [OF False, of ?k] obtain pre' post' where
      f: "filter ?P cs = pre' @ ?b # post'" and pre': "\<forall>p\<in>set pre'. ?k ?b < ?k p"
      and post': "\<forall>p\<in>set post'. ?k ?b \<le> ?k p"
      by blast
    from filter_eq_split [OF f] obtain pre post where cs: "cs = pre @ ?b # post"
      and pre: "filter ?P pre = pre'" and post: "filter ?P post = post'" and Pb: "?P ?b"
      by blast
    have nall: "\<not> (\<forall>q\<in>set cs. id_of (h ! q) \<in> set (opponents (h ! a)))"
      using False by (auto simp: filter_empty_conv)
    have "\<forall>p\<in>set pre. ?P p \<longrightarrow> ?k ?b < ?k p"
      using pre' pre by auto
    moreover have "\<forall>p\<in>set post. ?P p \<longrightarrow> ?k ?b \<le> ?k p"
      using post' post by auto
    moreover have "find_best_opponent h a cs = (Some ?b, cs)"
      using False by (simp add: find_best_opponent_def Let_def)
    ultimately show ?thesis using cs Pb nall by blast
  qed
qed

lemma find_best_opponent_None:
  "fst (find_best_opponent h a cs) = None \<longleftrightarrow> cs = []"
  by (auto simp: find_best_opponent_def Let_def)

lemma assign_colors_cases:
  "assign_colors h a b = (a, b) \<or> assign_colors h a b = (b, a)"
  by (simp add: assign_colors_def)

subsection \<open>The matching loop\<close>

lemma match_step_run:
  assumes "rest \<noteq> []"
  shows "\<exists>b pool pool'.
      find_best_opponent h a rest = (Some b, pool) \<and> b \<in> set rest \<and> mset pool = mset rest \<and>
      list_remove h pool b = Inr pool' \<and>
      match_step h (a # rest) =
        Inr (Pairing_init (id_of (h ! fst (assign_colors h a b)))
                          (id_of (h ! snd (assign_colors h a b))), pool')"
proof -
  from find_best_opponent_props [OF assms, of h a] obtain b pool pre post where
    f: "find_best_opponent h a rest = (Some b, pool)" and m: "mset pool = mset rest"
    and r: "rest = pre @ b # post"
    by blast
  from r have b: "b \<in> set rest" by (subst r) simp
  with m have "b \<in> set pool" by (metis set_mset_mset)
  from list_remove_succeeds [OF this, of h] obtain pool' where
    rm: "list_remove h pool b = Inr pool'" by blast
  have "match_step h (a # rest) =
        Inr (Pairing_init (id_of (h ! fst (assign_colors h a b)))
                          (id_of (h ! snd (assign_colors h a b))), pool')"
    using f rm by (simp add: match_step_def split: prod.splits)
  with f b m rm show ?thesis by blast
qed

lemma match_loop_step:
  "match_step h (a # rest) = Inr (pr, pool') \<Longrightarrow> rest \<noteq> [] \<Longrightarrow>
     match_loop h (a # rest) ps = match_loop h pool' (ps @ [pr])"
  by (subst match_loop.simps) (cases rest, simp_all)

lemma match_loop_total: "\<exists>res. match_loop h pool ps = Inr res"
proof (induction "length pool" arbitrary: pool ps rule: less_induct)
  case less
  show ?case
  proof (cases "2 \<le> length pool")
    case False
    then show ?thesis by (simp add: match_loop.simps)
  next
    case True
    then obtain a rest where pool: "pool = a # rest" and rest: "rest \<noteq> []"
      by (cases pool; cases "tl pool") auto
    from match_step_run [OF rest, of h a] obtain pr pool' where
      st: "match_step h (a # rest) = Inr (pr, pool')" by blast
    from match_step_length [OF st] pool have "length pool' < length pool" by simp
    from less.hyps [OF this] match_loop_step [OF st rest] pool show ?thesis by simp
  qed
qed

lemma match_loop_run:
  assumes "even (length pool)" and "inj_on (\<lambda>p. rank (h ! p)) (set pool)"
  shows "\<exists>pairs.
      match_loop h pool ps =
        Inr (ps @ map (\<lambda>(w, b). Pairing_init (id_of (h ! w)) (id_of (h ! b))) pairs) \<and>
      mset (pair_refs pairs) = mset pool"
  using assms
proof (induction "length pool" arbitrary: pool ps rule: less_induct)
  case less
  show ?case
  proof (cases "2 \<le> length pool")
    case False
    with less.prems have "pool = []" by (cases pool) (auto simp: Suc_le_eq)
    then have "match_loop h pool ps =
        Inr (ps @ map (\<lambda>(w, b). Pairing_init (id_of (h ! w)) (id_of (h ! b))) []) \<and>
      mset (pair_refs []) = mset pool"
      by (simp add: match_loop.simps)
    then show ?thesis by blast
  next
    case True
    then obtain a rest where pool: "pool = a # rest" and rest: "rest \<noteq> []"
      by (cases pool; cases "tl pool") auto
    from match_step_run [OF rest, of h a] obtain b pl pool' where
      b: "b \<in> set rest" and m: "mset pl = mset rest" and rm: "list_remove h pl b = Inr pool'"
      and st: "match_step h (a # rest) =
        Inr (Pairing_init (id_of (h ! fst (assign_colors h a b)))
                          (id_of (h ! snd (assign_colors h a b))), pool')"
      by blast
    let ?pr = "Pairing_init (id_of (h ! fst (assign_colors h a b)))
                          (id_of (h ! snd (assign_colors h a b)))"
    have spl: "set pl = set rest" using m by (metis set_mset_mset)
    have inj: "inj_on (\<lambda>p. rank (h ! p)) (set pl)"
      using less.prems(2) spl pool by (auto simp: inj_on_def)
    have "b \<in> set pl" using b spl by simp
    from list_remove_remove1 [OF this inj] rm have pool': "pool' = remove1 b pl" by simp
    have mp: "mset pool' = mset rest - {#b#}" using pool' m by simp
    then have mp2: "add_mset b (mset pool') = mset rest" using b by simp
    have len: "length pool' + 2 = length pool"
      using list_remove_length [OF rm] m pool by (metis Suc_eq_plus1 add_Suc_right length_Cons
          nat_1_add_1 size_mset)
    have sub: "set pool' \<subseteq> set pool" using pool' spl pool by (auto dest: notin_set_remove1)
    have "\<exists>pairs. match_loop h pool' (ps @ [?pr]) =
        Inr ((ps @ [?pr]) @ map (\<lambda>(w, b). Pairing_init (id_of (h ! w)) (id_of (h ! b))) pairs) \<and>
      mset (pair_refs pairs) = mset pool'"
    proof (rule less.hyps)
      show "length pool' < length pool" using len by simp
      show "even (length pool')" using len less.prems(1) by (metis even_add even_numeral)
      show "inj_on (\<lambda>p. rank (h ! p)) (set pool')"
        using less.prems(2) sub by (rule inj_on_subset)
    qed
    then obtain pairs where
      ml: "match_loop h pool' (ps @ [?pr]) =
        Inr ((ps @ [?pr]) @ map (\<lambda>(w, b). Pairing_init (id_of (h ! w)) (id_of (h ! b))) pairs)"
      and mc: "mset (pair_refs pairs) = mset pool'"
      by blast
    let ?c = "assign_colors h a b"
    have "match_loop h pool ps = match_loop h pool' (ps @ [?pr])"
      using True st pool by (subst match_loop.simps) simp
    with ml have "match_loop h pool ps =
        Inr (ps @ map (\<lambda>(w, b). Pairing_init (id_of (h ! w)) (id_of (h ! b))) (?c # pairs))"
      by (simp add: case_prod_beta)
    moreover have "mset (pair_refs (?c # pairs)) = mset pool"
      using assign_colors_cases [of h a b] mc mp2 pool by auto
    ultimately show ?thesis by blast
  qed
qed

subsection \<open>The whole run on a snapshot\<close>

lemma compute_pairings_run:
  assumes sn: "snapshot t"
  defines "h1 \<equiv> fold (\<lambda>p h. set_has_bye h p) (late_joiners t) (objs t)"
    and "pool \<equiv> filter (\<lambda>p. p \<notin> set (late_joiners t)) (players t)"
    and "ps1 \<equiv> map (\<lambda>p. Pairing_init (id_of (objs t ! p)) '''') (late_joiners t)"
  shows "\<exists>byes pairs.
      (if odd (length pool)
       then \<exists>b. byes = [b] \<and> select_bye_player h1 pool = Inr b \<and>
                odd_pool_bye (h1, pool, ps1) =
                  Inr (set_has_bye h1 b, remove1 b pool, ps1 @ [Pairing_init (id_of (h1 ! b)) ''''])
       else byes = []) \<and>
      compute_pairings t =
        Inr (ps1 @ map (\<lambda>p. Pairing_init (id_of (objs t ! p)) '''') byes @
               map (\<lambda>(w, b). Pairing_init (id_of (objs t ! w)) (id_of (objs t ! b))) pairs,
             fold (\<lambda>p h. set_has_bye h p) (late_joiners t @ byes) (objs t)) \<and>
      mset (byes @ pair_refs pairs) = mset pool"
proof -
  have ph1: "late_joiner_byes t = Inr (h1, pool, ps1)"
    unfolding h1_def pool_def ps1_def using sn by (rule late_joiner_byes_run)
  have inj0: "inj_on (\<lambda>p. rank (objs t ! p)) (set pool)"
    using snapshot_rank_inj [OF sn] by (auto simp: pool_def inj_on_def)
  then have inj1: "inj_on (\<lambda>p. rank (h1 ! p)) (set pool)" by (simp add: h1_def)
  show ?thesis
  proof (cases "odd (length pool)")
    case True
    from odd_pool_bye_odd [OF True inj1, of ps1] obtain b where
      s: "select_bye_player h1 pool = Inr b" and b: "b \<in> set pool"
      and ph2: "odd_pool_bye (h1, pool, ps1) =
        Inr (set_has_bye h1 b, remove1 b pool, ps1 @ [Pairing_init (id_of (h1 ! b)) ''''])"
      by blast
    let ?h2 = "set_has_bye h1 b"
    let ?ps2 = "ps1 @ [Pairing_init (id_of (h1 ! b)) '''']"
    have "even (length (remove1 b pool))" using True b by (simp add: length_remove1)
    moreover have "inj_on (\<lambda>p. rank (?h2 ! p)) (set (remove1 b pool))"
      using inj1 by (auto simp: inj_on_def dest: notin_set_remove1)
    ultimately obtain pairs where
      ml: "match_loop ?h2 (remove1 b pool) ?ps2 =
        Inr (?ps2 @ map (\<lambda>(w, b). Pairing_init (id_of (?h2 ! w)) (id_of (?h2 ! b))) pairs)"
      and mc: "mset (pair_refs pairs) = mset (remove1 b pool)"
      using match_loop_run [of "remove1 b pool" ?h2 ?ps2] by blast
    have "compute_pairings t =
        Inr (ps1 @ map (\<lambda>p. Pairing_init (id_of (objs t ! p)) '''') [b] @
               map (\<lambda>(w, b). Pairing_init (id_of (objs t ! w)) (id_of (objs t ! b))) pairs,
             fold (\<lambda>p h. set_has_bye h p) (late_joiners t @ [b]) (objs t))"
      using ph1 ph2 ml by (simp add: compute_pairings_def h1_def)
    moreover have "mset ([b] @ pair_refs pairs) = mset pool"
      using mc b by simp
    ultimately show ?thesis using True s ph2 by auto
  next
    case False
    with match_loop_run [of pool h1 ps1] inj1 obtain pairs where
      ml: "match_loop h1 pool ps1 =
        Inr (ps1 @ map (\<lambda>(w, b). Pairing_init (id_of (h1 ! w)) (id_of (h1 ! b))) pairs)"
      and mc: "mset (pair_refs pairs) = mset pool"
      by auto
    have "compute_pairings t =
        Inr (ps1 @ map (\<lambda>p. Pairing_init (id_of (objs t ! p)) '''') [] @
               map (\<lambda>(w, b). Pairing_init (id_of (objs t ! w)) (id_of (objs t ! b))) pairs,
             fold (\<lambda>p h. set_has_bye h p) (late_joiners t @ []) (objs t))"
      using ph1 odd_pool_bye_even [of pool h1 ps1] False ml
      by (simp add: compute_pairings_def h1_def)
    with mc False show ?thesis by auto
  qed
qed

lemma compute_pairings_refs:
  assumes sn: "snapshot t"
  shows "\<exists>byes pairs H.
      compute_pairings t =
        Inr (map (\<lambda>p. Pairing_init (id_of (objs t ! p)) '''') byes @
               map (\<lambda>(w, b). Pairing_init (id_of (objs t ! w)) (id_of (objs t ! b))) pairs, H) \<and>
      mset (byes @ pair_refs pairs) = mset (players t)"
proof -
  let ?pool = "filter (\<lambda>p. p \<notin> set (late_joiners t)) (players t)"
  from compute_pairings_run [OF sn] obtain byes pairs where
    c: "compute_pairings t =
        Inr (map (\<lambda>p. Pairing_init (id_of (objs t ! p)) '''') (late_joiners t) @
             map (\<lambda>p. Pairing_init (id_of (objs t ! p)) '''') byes @
               map (\<lambda>(w, b). Pairing_init (id_of (objs t ! w)) (id_of (objs t ! b))) pairs,
             fold (\<lambda>p h. set_has_bye h p) (late_joiners t @ byes) (objs t))"
    and m: "mset (byes @ pair_refs pairs) = mset ?pool"
    by blast
  have "mset (late_joiners t) + mset ?pool = mset (players t)"
    by (simp add: late_joiners_subseq) (metis (mono_tags, lifting) filter_cong mset_filter multiset_partition)
  with m have "mset ((late_joiners t @ byes) @ pair_refs pairs) = mset (players t)"
    by simp
  moreover from c have "compute_pairings t =
        Inr (map (\<lambda>p. Pairing_init (id_of (objs t ! p)) '''') (late_joiners t @ byes) @
               map (\<lambda>(w, b). Pairing_init (id_of (objs t ! w)) (id_of (objs t ! b))) pairs,
             fold (\<lambda>p h. set_has_bye h p) (late_joiners t @ byes) (objs t))"
    by simp
  ultimately show ?thesis by blast
qed

lemma length_pair_refs:
  "length (pair_refs pairs) = 2 * length pairs"
  by (induction pairs rule: pair_refs.induct) auto

lemma count_ref_byes:
  "distinct byes \<Longrightarrow> length (filter (\<lambda>p. p = r) byes) = (if r \<in> set byes then 1 else 0)"
  by (induction byes) auto

lemma count_ref_pairs:
  "distinct (pair_refs pairs) \<Longrightarrow>
     length (filter (\<lambda>(w, b). w = r \<or> b = r) pairs) =
       (if r \<in> set (pair_refs pairs) then 1 else 0)"
  by (induction pairs rule: pair_refs.induct) auto

lemma pairs_refs_in_set:
  "(w, b) \<in> set pairs \<Longrightarrow> w \<in> set (pair_refs pairs) \<and>
      b \<in> set (pair_refs pairs)"
  by (induction pairs rule: pair_refs.induct) auto

section \<open>The sample tournament, evaluated\<close>

lemmas load_defs = Tournament_init_def load_from_json_def load_player_def subscript_def
  get_default_def PlayerInput_dict_def update_ranks_def max_games_def Let_def

lemmas player_defs = Player_init_def calculate_color_balance_def determine_preferred_color_def

lemmas engine_defs = compute_pairings_def late_joiner_byes_def late_joiners_def max_games_def
  odd_pool_bye_def select_bye_player_def max_by_rank_def set_has_bye_def match_loop.simps
  match_step_def find_best_opponent_def assign_colors_def Pairing_init_def Let_def

lemma example_init:
  "Tournament_init (\<lambda>s. s) Inr Inr (Some example_records) = Inr example_snapshot"
  by (simp add: example_records_def example_snapshot_def load_defs player_defs)

lemma example_late_joiner_byes:
  "late_joiner_byes example_snapshot =
     Inr (set_has_bye (objs example_snapshot) 2, [1, 3, 0], [Pairing_init ''eve'' ''''])"
  by (simp add: example_snapshot_def late_joiner_byes_def late_joiners_def max_games_def
      set_has_bye_def Pairing_init_def player_defs)

section \<open>The claims\<close>

subsection \<open>C1: coverage\<close>

text \<open>
  C1, as amended. For every snapshot whose player ids are unique and none of
  which is the empty string, \<^verbatim>\<open>compute_pairings\<close> returns, and every player
  id of the snapshot occurs (as white id or as black id) in exactly one pairing
  of the returned sequence.
\<close>

theorem coverage_nonempty_ids:
  assumes init: "Tournament_init cs ci cf json = Inr t"
    and uniq: "distinct (map id_of (objs t))"
    and nonempty: "'''' \<notin> set (map id_of (objs t))"
  shows "\<exists>ps H. compute_pairings t = Inr (ps, H) \<and>
           (\<forall>r\<in>set (players t). length (filter (occurs_in (id_of (objs t ! r))) ps) = 1)"
proof -
  let ?h = "objs t"
  let ?bye = "\<lambda>p. Pairing_init (id_of (?h ! p)) ''''"
  let ?dec = "\<lambda>(w, b). Pairing_init (id_of (?h ! w)) (id_of (?h ! b))"
    have sn: "snapshot t" using init by (rule Tournament_init_snapshot)
  from compute_pairings_refs [OF sn] obtain byes pairs H where
    c: "compute_pairings t = Inr (map ?bye byes @ map ?dec pairs, H)"
    and m: "mset (byes @ pair_refs pairs) = mset (players t)"
    by blast
  have dp: "distinct (players t)" using sn by (simp add: snapshot_def)
  with m have d: "distinct (byes @ pair_refs pairs)" by (metis mset_eq_imp_distinct_iff)
  have s: "set (byes @ pair_refs pairs) = set (players t)" using m by (metis set_mset_mset)
  have ideq: "id_of (?h ! p) = id_of (?h ! q) \<longleftrightarrow> p = q"
    if "p \<in> set (players t)" "q \<in> set (players t)" for p q
  proof -
    from that sn have "p < length (map id_of ?h)" "q < length (map id_of ?h)"
      by (auto simp: snapshot_def)
    with uniq have "map id_of ?h ! p = map id_of ?h ! q \<longleftrightarrow> p = q"
      by (simp only: nth_eq_iff_index_eq)
    with that sn show ?thesis by (auto simp: snapshot_def)
  qed
  have idne: "id_of (?h ! p) \<noteq> ''''" if "p \<in> set (players t)" for p
    using snapshot_id_in_store [OF sn that] nonempty by metis
  have "length (filter (occurs_in (id_of (?h ! r))) (map ?bye byes @ map ?dec pairs)) = 1"
    if r: "r \<in> set (players t)" for r
  proof -
    have "filter (occurs_in (id_of (?h ! r)) \<circ> ?bye) byes = filter (\<lambda>p. p = r) byes"
    proof (rule filter_cong [OF refl])
      fix p assume "p \<in> set byes"
      then have "p \<in> set (players t)" using s by auto
      from ideq [OF this r] idne [OF r]
      show "(occurs_in (id_of (?h ! r)) \<circ> ?bye) p = (p = r)"
        by (auto simp: occurs_in_def Pairing_init_def)
    qed
    moreover have "filter (occurs_in (id_of (?h ! r)) \<circ> ?dec) pairs =
        filter (\<lambda>(w, b). w = r \<or> b = r) pairs"
    proof (rule filter_cong [OF refl])
      fix x assume x: "x \<in> set pairs"
      obtain w b where wb: "x = (w, b)" by (cases x)
      with x pairs_refs_in_set [of w b pairs] s
      have "w \<in> set (players t)" "b \<in> set (players t)" by auto
      from ideq [OF this(1) r] ideq [OF this(2) r]
      show "(occurs_in (id_of (?h ! r)) \<circ> ?dec) x = (case x of (w, b) \<Rightarrow> w = r \<or> b = r)"
        by (auto simp: wb occurs_in_def Pairing_init_def)
    qed
    moreover have "length (filter (\<lambda>p. p = r) byes) + length (filter (\<lambda>(w, b). w = r \<or> b = r) pairs) = 1"
      using d r s by (auto simp: count_ref_byes count_ref_pairs)
    ultimately show ?thesis by (simp add: filter_map)
  qed
  with c show ?thesis by blast
qed

text \<open>The theorem on the sample tournament.\<close>

theorem coverage_nonempty_ids_witness:
  "\<exists>ps H. compute_pairings example_snapshot = Inr (ps, H) \<and>
     length (filter (occurs_in ''ann'') ps) = 1 \<and>
     length (filter (occurs_in ''eve'') ps) = 1 \<and>
     length (filter (occurs_in ''bob'') ps) = 1 \<and>
     length (filter (occurs_in ''cy'') ps) = 1"
proof -
  have "distinct (map id_of (objs example_snapshot))"
    and "'''' \<notin> set (map id_of (objs example_snapshot))"
    by (simp_all add: example_snapshot_def player_defs)
  from coverage_nonempty_ids [OF example_init this] obtain ps H where
    c: "compute_pairings example_snapshot = Inr (ps, H)"
    and a: "\<forall>r\<in>set (players example_snapshot).
       length (filter (occurs_in (id_of (objs example_snapshot ! r))) ps) = 1"
    by blast
  from a have "length (filter (occurs_in ''ann'') ps) = 1 \<and>
     length (filter (occurs_in ''eve'') ps) = 1 \<and>
     length (filter (occurs_in ''bob'') ps) = 1 \<and>
     length (filter (occurs_in ''cy'') ps) = 1"
    by (simp add: example_snapshot_def player_defs)
  with c show ?thesis by blast
qed

text \<open>
  C1 as stated fails when a player's id is the empty string. The players a, the
  player with id \<open>''''\<close>, and b have unique ids; b gets the odd-pool bye, a is
  paired with the nameless player as black, and the empty id is the black id of
  both pairings. (Read with a bye's black id left out, the empty id occurs in
  no pairing: both pairings are flagged as byes.)
\<close>

theorem coverage_counterexample:
  "Tournament_init (\<lambda>s. s) Inr Inr
     (Some [PlayerInput_dict ''a'' 1500 1 [] [] False,
            PlayerInput_dict '''' 1500 1 [] [] False,
            PlayerInput_dict ''b'' 1500 0 [] [] False])
   = Inr \<lparr>objs = [(Player_init ''a'' 1500 1 [] [] False)\<lparr>rank := 1\<rparr>,
                  (Player_init '''' 1500 1 [] [] False)\<lparr>rank := 2\<rparr>,
                  (Player_init ''b'' 1500 0 [] [] False)\<lparr>rank := 3\<rparr>],
          players = [0, 1, 2], current_round = 1\<rparr>
   \<and> distinct (map id_of
        [(Player_init ''a'' 1500 1 [] [] False)\<lparr>rank := 1\<rparr>,
         (Player_init '''' 1500 1 [] [] False)\<lparr>rank := 2\<rparr>,
         (Player_init ''b'' 1500 0 [] [] False)\<lparr>rank := 3\<rparr>])
   \<and> id_of ((Player_init '''' 1500 1 [] [] False)\<lparr>rank := 2\<rparr>) = ''''
   \<and> compute_pairings
       \<lparr>objs = [(Player_init ''a'' 1500 1 [] [] False)\<lparr>rank := 1\<rparr>,
                (Player_init '''' 1500 1 [] [] False)\<lparr>rank := 2\<rparr>,
                (Player_init ''b'' 1500 0 [] [] False)\<lparr>rank := 3\<rparr>],
        players = [0, 1, 2], current_round = 1\<rparr>
     = Inr ([\<lparr>white = ''b'', black = '''', is_bye = True\<rparr>,
             \<lparr>white = ''a'', black = '''', is_bye = True\<rparr>],
            [(Player_init ''a'' 1500 1 [] [] False)\<lparr>rank := 1\<rparr>,
             (Player_init '''' 1500 1 [] [] False)\<lparr>rank := 2\<rparr>,
             (Player_init ''b'' 1500 0 [] [] False)\<lparr>rank := 3, has_bye := True\<rparr>])
   \<and> length (filter (occurs_in '''')
        [\<lparr>white = ''b'', black = '''', is_bye = True\<rparr>,
         \<lparr>white = ''a'', black = '''', is_bye = True\<rparr>]) = 2"
  by (simp add: load_defs player_defs engine_defs occurs_in_def)

subsection \<open>C2: the invariant of a pairing\<close>

text \<open>
  C2, as amended. For every snapshot in which no player id is the empty string
  or \<open>''0''\<close>, every pairing \<^verbatim>\<open>compute_pairings\<close> returns has \<open>is_bye\<close> true
  exactly when its black id is empty, and a non-empty white id.
\<close>

theorem pairing_invariant_proper_ids:
  assumes init: "Tournament_init cs ci cf json = Inr t"
    and ids: "'''' \<notin> set (map id_of (objs t))" "''0'' \<notin> set (map id_of (objs t))"
  shows "\<exists>ps H. compute_pairings t = Inr (ps, H) \<and> (\<forall>p\<in>set ps. well_formed_pairing p)"
proof -
  let ?h = "objs t"
  let ?bye = "\<lambda>p. Pairing_init (id_of (?h ! p)) ''''"
  let ?dec = "\<lambda>(w, b). Pairing_init (id_of (?h ! w)) (id_of (?h ! b))"
    have sn: "snapshot t" using init by (rule Tournament_init_snapshot)
  from compute_pairings_refs [OF sn] obtain byes pairs H where
    c: "compute_pairings t = Inr (map ?bye byes @ map ?dec pairs, H)"
    and m: "mset (byes @ pair_refs pairs) = mset (players t)"
    by blast
  have s: "set (byes @ pair_refs pairs) = set (players t)" using m by (metis set_mset_mset)
  have idok: "id_of (?h ! p) \<noteq> '''' \<and> id_of (?h ! p) \<noteq> ''0''" if "p \<in> set (players t)" for p
    using snapshot_id_in_store [OF sn that] ids by metis
  have "well_formed_pairing (?bye p)" if "p \<in> set byes" for p
  proof -
    from that s have "p \<in> set (players t)" by auto
    from idok [OF this] show ?thesis by (simp add: well_formed_pairing_def Pairing_init_def)
  qed
  moreover have "well_formed_pairing (?dec x)" if x: "x \<in> set pairs" for x
  proof -
    obtain w b where wb: "x = (w, b)" by (cases x)
    with x pairs_refs_in_set [of w b pairs] s
    have "w \<in> set (players t)" "b \<in> set (players t)" by auto
    from idok [OF this(1)] idok [OF this(2)] show ?thesis
      by (simp add: wb well_formed_pairing_def Pairing_init_def)
  qed
  ultimately have "\<forall>p\<in>set (map ?bye byes @ map ?dec pairs). well_formed_pairing p" by auto
  with c show ?thesis by blast
qed

text \<open>The theorem on the sample tournament.\<close>

theorem pairing_invariant_proper_ids_witness:
  "\<exists>ps H. compute_pairings example_snapshot = Inr (ps, H) \<and> list_all well_formed_pairing ps"
proof -
  have "'''' \<notin> set (map id_of (objs example_snapshot))"
    and "''0'' \<notin> set (map id_of (objs example_snapshot))"
    by (simp_all add: example_snapshot_def player_defs)
  from pairing_invariant_proper_ids [OF example_init this] show ?thesis
    by (simp add: list_all_iff)
qed

text \<open>
  C2 as stated fails for a player with id \<open>''0''\<close>: paired as black, the
  opponent id is present and the pairing is flagged as a bye, since
  \<^verbatim>\<open>Pairing.__init__\<close> reads a black id \<^verbatim>\<open>"0"\<close> as a bye.
\<close>

theorem pairing_invariant_counterexample:
  "Tournament_init (\<lambda>s. s) Inr Inr
     (Some [PlayerInput_dict ''7'' 1500 1 [] [] False,
            PlayerInput_dict ''0'' 1500 1 [] [] False])
   = Inr \<lparr>objs = [(Player_init ''7'' 1500 1 [] [] False)\<lparr>rank := 1\<rparr>,
                  (Player_init ''0'' 1500 1 [] [] False)\<lparr>rank := 2\<rparr>],
          players = [0, 1], current_round = 1\<rparr>
   \<and> compute_pairings
       \<lparr>objs = [(Player_init ''7'' 1500 1 [] [] False)\<lparr>rank := 1\<rparr>,
                (Player_init ''0'' 1500 1 [] [] False)\<lparr>rank := 2\<rparr>],
        players = [0, 1], current_round = 1\<rparr>
     = Inr ([\<lparr>white = ''7'', black = ''0'', is_bye = True\<rparr>],
            [(Player_init ''7'' 1500 1 [] [] False)\<lparr>rank := 1\<rparr>,
             (Player_init ''0'' 1500 1 [] [] False)\<lparr>rank := 2\<rparr>])
   \<and> \<not> well_formed_pairing \<lparr>white = ''7'', black = ''0'', is_bye = True\<rparr>"
  by (simp add: load_defs player_defs engine_defs well_formed_pairing_def)

subsection \<open>C3: parity\<close>

text \<open>
  C3, as amended. For every snapshot in which no player id is the empty string
  or \<open>''0''\<close>, the number of bye pairings plus twice the number of other
  pairings in the sequence \<^verbatim>\<open>compute_pairings\<close> returns is the number of
  players.
\<close>

theorem parity_proper_ids:
  assumes init: "Tournament_init cs ci cf json = Inr t"
    and ids: "'''' \<notin> set (map id_of (objs t))" "''0'' \<notin> set (map id_of (objs t))"
  shows "\<exists>ps H. compute_pairings t = Inr (ps, H) \<and> parity t ps"
proof -
  let ?h = "objs t"
  let ?bye = "\<lambda>p. Pairing_init (id_of (?h ! p)) ''''"
  let ?dec = "\<lambda>(w, b). Pairing_init (id_of (?h ! w)) (id_of (?h ! b))"
    have sn: "snapshot t" using init by (rule Tournament_init_snapshot)
  from compute_pairings_refs [OF sn] obtain byes pairs H where
    c: "compute_pairings t = Inr (map ?bye byes @ map ?dec pairs, H)"
    and m: "mset (byes @ pair_refs pairs) = mset (players t)"
    by blast
  have s: "set (byes @ pair_refs pairs) = set (players t)" using m by (metis set_mset_mset)
  have idok: "id_of (?h ! p) \<noteq> '''' \<and> id_of (?h ! p) \<noteq> ''0''" if "p \<in> set (players t)" for p
    using snapshot_id_in_store [OF sn that] ids by metis
  have b1: "filter is_bye (map ?bye byes) = map ?bye byes"
    by (simp add: filter_map comp_def Pairing_init_def)
  have b2: "filter (\<lambda>p. \<not> is_bye p) (map ?bye byes) = []"
    by (simp add: filter_map comp_def Pairing_init_def)
  have nb: "\<not> is_bye (?dec x)" if x: "x \<in> set pairs" for x
  proof -
    obtain w b where wb: "x = (w, b)" by (cases x)
    with x pairs_refs_in_set [of w b pairs] s have "b \<in> set (players t)" by auto
    from idok [OF this] show ?thesis by (simp add: wb Pairing_init_def)
  qed
  then have d1: "filter is_bye (map ?dec pairs) = []"
    by (auto simp: filter_empty_conv)
  from nb have d2: "filter (\<lambda>p. \<not> is_bye p) (map ?dec pairs) = map ?dec pairs"
    by (auto simp: filter_id_conv)
  have "length byes + 2 * length pairs = length (byes @ pair_refs pairs)"
    by (simp add: length_pair_refs)
  also have "\<dots> = length (players t)" using m by (metis size_mset)
  finally have "parity t (map ?bye byes @ map ?dec pairs)"
    by (simp add: parity_def b1 b2 d1 d2)
  with c show ?thesis by blast
qed

text \<open>The theorem on the sample tournament.\<close>

theorem parity_proper_ids_witness:
  "\<exists>ps H. compute_pairings example_snapshot = Inr (ps, H) \<and> parity example_snapshot ps"
proof -
  have "'''' \<notin> set (map id_of (objs example_snapshot))"
    and "''0'' \<notin> set (map id_of (objs example_snapshot))"
    by (simp_all add: example_snapshot_def player_defs)
  from parity_proper_ids [OF example_init this] show ?thesis .
qed

text \<open>
  C3 as stated fails for three players x, \<open>''0''\<close> and y: y gets the odd-pool
  bye, x is paired with \<open>''0''\<close> as black and that pairing is flagged as a bye
  too, so the count is 2 for 3 players.
\<close>

theorem parity_counterexample:
  "Tournament_init (\<lambda>s. s) Inr Inr
     (Some [PlayerInput_dict ''x'' 1500 1 [] [] False,
            PlayerInput_dict ''0'' 1500 1 [] [] False,
            PlayerInput_dict ''y'' 1500 0 [] [] False])
   = Inr \<lparr>objs = [(Player_init ''x'' 1500 1 [] [] False)\<lparr>rank := 1\<rparr>,
                  (Player_init ''0'' 1500 1 [] [] False)\<lparr>rank := 2\<rparr>,
                  (Player_init ''y'' 1500 0 [] [] False)\<lparr>rank := 3\<rparr>],
          players = [0, 1, 2], current_round = 1\<rparr>
   \<and> compute_pairings
       \<lparr>objs = [(Player_init ''x'' 1500 1 [] [] False)\<lparr>rank := 1\<rparr>,
                (Player_init ''0'' 1500 1 [] [] False)\<lparr>rank := 2\<rparr>,
                (Player_init ''y'' 1500 0 [] [] False)\<lparr>rank := 3\<rparr>],
        players = [0, 1, 2], current_round = 1\<rparr>
     = Inr ([\<lparr>white = ''y'', black = '''', is_bye = True\<rparr>,
             \<lparr>white = ''x'', black = ''0'', is_bye = True\<rparr>],
            [(Player_init ''x'' 1500 1 [] [] False)\<lparr>rank := 1\<rparr>,
             (Player_init ''0'' 1500 1 [] [] False)\<lparr>rank := 2\<rparr>,
             (Player_init ''y'' 1500 0 [] [] False)\<lparr>rank := 3, has_bye := True\<rparr>])
   \<and> \<not> parity
       \<lparr>objs = [(Player_init ''x'' 1500 1 [] [] False)\<lparr>rank := 1\<rparr>,
                (Player_init ''0'' 1500 1 [] [] False)\<lparr>rank := 2\<rparr>,
                (Player_init ''y'' 1500 0 [] [] False)\<lparr>rank := 3\<rparr>],
        players = [0, 1, 2], current_round = 1\<rparr>
       [\<lparr>white = ''y'', black = '''', is_bye = True\<rparr>,
        \<lparr>white = ''x'', black = ''0'', is_bye = True\<rparr>]"
  by (simp add: load_defs player_defs engine_defs parity_def)

subsection \<open>C4: the odd-pool bye\<close>

text \<open>
  C4. On a snapshot, when the pool left by the late-joiner step has odd size,
  the next pairing is a bye for a pool member \<open>b\<close> whose flag is set: if some
  pool member has \<open>has_bye\<close> false, then \<open>b\<close> has it false and every other such
  member has a smaller rank; only if all pool members have \<open>has_bye\<close> true is
  \<open>b\<close> the member of largest rank overall. The pool members are as in the
  snapshot, the late-joiner step has not touched them.
\<close>

theorem odd_pool_bye_fair:
  assumes init: "Tournament_init cs ci cf json = Inr t"
    and ph1: "late_joiner_byes t = Inr (h1, pool, ps1)"
    and odd: "odd (length pool)"
  shows "\<exists>b rest.
      b \<in> set pool \<and>
      (if \<exists>p\<in>set pool. \<not> has_bye (h1 ! p)
       then \<not> has_bye (h1 ! b) \<and>
            (\<forall>p\<in>set pool. \<not> has_bye (h1 ! p) \<and> p \<noteq> b \<longrightarrow> rank (h1 ! p) < rank (h1 ! b))
       else (\<forall>p\<in>set pool. p \<noteq> b \<longrightarrow> rank (h1 ! p) < rank (h1 ! b))) \<and>
      odd_pool_bye (h1, pool, ps1) =
        Inr (set_has_bye h1 b, remove1 b pool, ps1 @ [Pairing_init (id_of (h1 ! b)) '''']) \<and>
      compute_pairings t =
        Inr (ps1 @ Pairing_init (id_of (h1 ! b)) '''' # rest, set_has_bye h1 b) \<and>
      has_bye (set_has_bye h1 b ! b) \<and>
      (\<forall>p\<in>set pool. h1 ! p = objs t ! p)"
proof -
  have sn: "snapshot t" using init by (rule Tournament_init_snapshot)
  from late_joiner_byes_run [OF sn] ph1
  have h1: "h1 = fold (\<lambda>p h. set_has_bye h p) (late_joiners t) (objs t)"
    and pool: "pool = filter (\<lambda>p. p \<notin> set (late_joiners t)) (players t)"
    and ps1: "ps1 = map (\<lambda>p. Pairing_init (id_of (objs t ! p)) '''') (late_joiners t)"
    by simp_all
  have same: "\<forall>p\<in>set pool. h1 ! p = objs t ! p"
    by (simp add: h1 pool fold_set_has_bye_other)
  have inj: "inj_on (\<lambda>p. rank (h1 ! p)) (set pool)"
    using snapshot_rank_inj [OF sn] by (auto simp: h1 pool inj_on_def)
  from odd have ne: "pool \<noteq> []" by auto
  from select_bye_player_props [OF ne, of h1] obtain b where
    s: "select_bye_player h1 pool = Inr b" and b: "b \<in> set pool"
    and f: "if \<exists>p\<in>set pool. \<not> has_bye (h1 ! p)
       then \<not> has_bye (h1 ! b) \<and>
            (\<forall>p\<in>set pool. \<not> has_bye (h1 ! p) \<longrightarrow> rank (h1 ! p) \<le> rank (h1 ! b))
       else (\<forall>p\<in>set pool. rank (h1 ! p) \<le> rank (h1 ! b))"
    by blast
  have strict: "rank (h1 ! p) < rank (h1 ! b)"
    if "p \<in> set pool" "p \<noteq> b" "rank (h1 ! p) \<le> rank (h1 ! b)" for p
  proof -
    from inj that(1,2) b have "rank (h1 ! p) \<noteq> rank (h1 ! b)" by (auto simp: inj_on_def)
    with that(3) show ?thesis by simp
  qed
  have fair: "if \<exists>p\<in>set pool. \<not> has_bye (h1 ! p)
       then \<not> has_bye (h1 ! b) \<and>
            (\<forall>p\<in>set pool. \<not> has_bye (h1 ! p) \<and> p \<noteq> b \<longrightarrow> rank (h1 ! p) < rank (h1 ! b))
       else (\<forall>p\<in>set pool. p \<noteq> b \<longrightarrow> rank (h1 ! p) < rank (h1 ! b))"
  proof (cases "\<exists>p\<in>set pool. \<not> has_bye (h1 ! p)")
    case True
    with f strict show ?thesis by auto
  next
    case False
    with f strict show ?thesis by auto
  qed
  from compute_pairings_run [OF sn] odd s obtain pairs where
    ph2: "odd_pool_bye (h1, pool, ps1) =
        Inr (set_has_bye h1 b, remove1 b pool, ps1 @ [Pairing_init (id_of (h1 ! b)) ''''])"
    and c: "compute_pairings t =
        Inr (ps1 @ map (\<lambda>p. Pairing_init (id_of (objs t ! p)) '''') [b] @
               map (\<lambda>(w, b). Pairing_init (id_of (objs t ! w)) (id_of (objs t ! b))) pairs,
             fold (\<lambda>p h. set_has_bye h p) (late_joiners t @ [b]) (objs t))"
    unfolding h1 [symmetric] pool [symmetric] ps1 [symmetric] by auto
  from b sn have "b < length h1" by (auto simp: h1 pool snapshot_def)
  then have hb: "has_bye (set_has_bye h1 b ! b)" by (simp add: set_has_bye_nth)
  from c have "compute_pairings t =
        Inr (ps1 @ Pairing_init (id_of (h1 ! b)) '''' #
               map (\<lambda>(w, b). Pairing_init (id_of (objs t ! w)) (id_of (objs t ! b))) pairs,
             set_has_bye h1 b)"
    by (simp add: h1)
  with b fair ph2 hb same show ?thesis by blast
qed

text \<open>
  On the sample tournament the pool after eve's bye is ann, bob, cy; cy has had
  a bye, so the bye goes to a player that has not.
\<close>

theorem odd_pool_bye_fair_witness:
  "\<exists>b rest. b \<in> set [1, 3, 0::nat] \<and>
      \<not> has_bye (set_has_bye (objs example_snapshot) 2 ! b) \<and>
      (\<forall>p\<in>set [1, 3, 0::nat].
          \<not> has_bye (set_has_bye (objs example_snapshot) 2 ! p) \<and> p \<noteq> b \<longrightarrow>
          rank (set_has_bye (objs example_snapshot) 2 ! p)
            < rank (set_has_bye (objs example_snapshot) 2 ! b)) \<and>
      compute_pairings example_snapshot =
        Inr ([Pairing_init ''eve'' ''''] @
               Pairing_init (id_of (set_has_bye (objs example_snapshot) 2 ! b)) '''' # rest,
             set_has_bye (set_has_bye (objs example_snapshot) 2) b)"
proof -
  let ?h1 = "set_has_bye (objs example_snapshot) 2"
  have odd: "odd (length [1, 3, 0::nat])" by simp
  have "\<not> has_bye (?h1 ! 1)"
    by (simp add: example_snapshot_def set_has_bye_def player_defs)
  then have ex: "\<exists>p\<in>set [1, 3, 0::nat]. \<not> has_bye (?h1 ! p)" by simp
  from odd_pool_bye_fair [OF example_init example_late_joiner_byes odd] obtain b rest where
    b: "b \<in> set [1, 3, 0::nat]"
    and fair: "if \<exists>p\<in>set [1, 3, 0::nat]. \<not> has_bye (?h1 ! p)
       then \<not> has_bye (?h1 ! b) \<and>
            (\<forall>p\<in>set [1, 3, 0::nat]. \<not> has_bye (?h1 ! p) \<and> p \<noteq> b \<longrightarrow> rank (?h1 ! p) < rank (?h1 ! b))
       else (\<forall>p\<in>set [1, 3, 0::nat]. p \<noteq> b \<longrightarrow> rank (?h1 ! p) < rank (?h1 ! b))"
    and c: "compute_pairings example_snapshot =
        Inr ([Pairing_init ''eve'' ''''] @ Pairing_init (id_of (?h1 ! b)) '''' # rest,
             set_has_bye ?h1 b)"
    by blast
  from fair have "\<not> has_bye (?h1 ! b) \<and>
            (\<forall>p\<in>set [1, 3, 0::nat]. \<not> has_bye (?h1 ! p) \<and> p \<noteq> b \<longrightarrow> rank (?h1 ! p) < rank (?h1 ! b))"
    unfolding if_P [OF ex] .
  with b c show ?thesis by blast
qed

subsection \<open>C5: late joiners\<close>

text \<open>
  C5. On a snapshot, the players with fewer games than the maximum over the
  snapshot are exactly the late joiners; each is absent from the pool the
  late-joiner step leaves, has \<open>has_bye\<close> set in the store after that step and
  after the whole run, and gets a bye pairing; these byes are the first
  pairings of the result, in increasing rank.
\<close>

theorem late_joiner_byes_first:
  assumes init: "Tournament_init cs ci cf json = Inr t"
  shows "\<exists>h1 pool rest H.
     late_joiner_byes t =
       Inr (h1, pool, map (\<lambda>p. Pairing_init (id_of (objs t ! p)) '''') (late_joiners t)) \<and>
     compute_pairings t =
       Inr (map (\<lambda>p. Pairing_init (id_of (objs t ! p)) '''') (late_joiners t) @ rest, H) \<and>
     (\<forall>p\<in>set (players t).
        games_played (objs t) p < Max (games_played (objs t) ` set (players t)) \<longrightarrow>
          p \<in> set (late_joiners t) \<and> p \<notin> set pool \<and> has_bye (h1 ! p) \<and> has_bye (H ! p) \<and>
          is_bye (Pairing_init (id_of (objs t ! p)) '''')) \<and>
     (\<forall>p\<in>set (late_joiners t).
        p \<in> set (players t) \<and>
        games_played (objs t) p < Max (games_played (objs t) ` set (players t))) \<and>
     sorted_wrt (<) (map (\<lambda>p. rank (objs t ! p)) (late_joiners t))"
proof -
  let ?lj = "late_joiners t"
  let ?h1 = "fold (\<lambda>p h. set_has_bye h p) ?lj (objs t)"
  let ?pool = "filter (\<lambda>p. p \<notin> set ?lj) (players t)"
  let ?ps1 = "map (\<lambda>p. Pairing_init (id_of (objs t ! p)) '''') ?lj"
  have sn: "snapshot t" using init by (rule Tournament_init_snapshot)
  have ph1: "late_joiner_byes t = Inr (?h1, ?pool, ?ps1)"
    using sn by (rule late_joiner_byes_run)
  from compute_pairings_run [OF sn] obtain byes pairs where
    c: "compute_pairings t =
        Inr (?ps1 @ map (\<lambda>p. Pairing_init (id_of (objs t ! p)) '''') byes @
               map (\<lambda>(w, b). Pairing_init (id_of (objs t ! w)) (id_of (objs t ! b))) pairs,
             fold (\<lambda>p h. set_has_bye h p) (?lj @ byes) (objs t))"
    by blast
  let ?H = "fold (\<lambda>p h. set_has_bye h p) (?lj @ byes) (objs t)"
  have mem: "p \<in> set ?lj \<longleftrightarrow>
      p \<in> set (players t) \<and> games_played (objs t) p < Max (games_played (objs t) ` set (players t))"
    for p
  proof (cases "players t = []")
    case True
    then show ?thesis by (simp add: late_joiners_subseq)
  next
    case False
    from max_games_Max [OF this] show ?thesis
      by (simp add: late_joiners_subseq games_played_def)
  qed
  have marked: "has_bye (?h1 ! p) \<and> has_bye (?H ! p)" if "p \<in> set ?lj" for p
  proof -
    from that mem have "p \<in> set (players t)" by simp
    with sn have "p < length (objs t)" by (auto simp: snapshot_def)
    with that show ?thesis by (simp add: fold_set_has_bye_nth del: fold_append)
  qed
  have "sorted_wrt (<) (map (\<lambda>p. rank (objs t ! p)) (players t))"
    using sn by (rule snapshot_ranks_sorted)
  then have srt: "sorted_wrt (<) (map (\<lambda>p. rank (objs t ! p)) ?lj)"
    unfolding late_joiners_subseq by (simp add: sorted_wrt_map sorted_wrt_filter)
  have "\<forall>p\<in>set (players t).
        games_played (objs t) p < Max (games_played (objs t) ` set (players t)) \<longrightarrow>
          p \<in> set ?lj \<and> p \<notin> set ?pool \<and> has_bye (?h1 ! p) \<and> has_bye (?H ! p) \<and>
          is_bye (Pairing_init (id_of (objs t ! p)) '''')"
    using mem marked by (auto simp: Pairing_init_def)
  moreover have "\<forall>p\<in>set ?lj. p \<in> set (players t) \<and>
        games_played (objs t) p < Max (games_played (objs t) ` set (players t))"
    using mem by blast
  ultimately show ?thesis using ph1 c srt by blast
qed

text \<open>On the sample tournament eve (reference 2) is the late joiner.\<close>

theorem late_joiner_byes_first_witness:
  "\<exists>h1 pool rest H.
     late_joiner_byes example_snapshot = Inr (h1, pool, [Pairing_init ''eve'' '''']) \<and>
     compute_pairings example_snapshot = Inr (Pairing_init ''eve'' '''' # rest, H) \<and>
     2 \<notin> set pool \<and> has_bye (h1 ! 2) \<and> has_bye (H ! 2)"
proof -
  have lj: "late_joiners example_snapshot = [2]"
    by (simp add: example_snapshot_def late_joiners_def max_games_def player_defs)
  have ob: "id_of (objs example_snapshot ! 2) = ''eve''" and pl: "2 \<in> set (players example_snapshot)"
    by (simp_all add: example_snapshot_def player_defs)
  from late_joiner_byes_first [OF example_init] obtain h1 pool rest H where
    1: "late_joiner_byes example_snapshot =
       Inr (h1, pool, map (\<lambda>p. Pairing_init (id_of (objs example_snapshot ! p)) '''')
                        (late_joiners example_snapshot))"
    and 2: "compute_pairings example_snapshot =
       Inr (map (\<lambda>p. Pairing_init (id_of (objs example_snapshot ! p)) '''')
                (late_joiners example_snapshot) @ rest, H)"
    and 3: "\<forall>p\<in>set (players example_snapshot).
        games_played (objs example_snapshot) p
          < Max (games_played (objs example_snapshot) ` set (players example_snapshot)) \<longrightarrow>
          p \<in> set (late_joiners example_snapshot) \<and> p \<notin> set pool \<and> has_bye (h1 ! p) \<and>
          has_bye (H ! p) \<and> is_bye (Pairing_init (id_of (objs example_snapshot ! p)) '''')"
    and 4: "\<forall>p\<in>set (late_joiners example_snapshot).
        p \<in> set (players example_snapshot) \<and>
        games_played (objs example_snapshot) p
          < Max (games_played (objs example_snapshot) ` set (players example_snapshot))"
    by blast
  from 4 have "games_played (objs example_snapshot) 2
          < Max (games_played (objs example_snapshot) ` set (players example_snapshot))"
    unfolding lj by simp
  with 3 pl have "2 \<notin> set pool \<and> has_bye (h1 ! 2) \<and> has_bye (H ! 2)" by blast
  moreover from 1 have "late_joiner_byes example_snapshot = Inr (h1, pool, [Pairing_init ''eve'' ''''])"
    unfolding lj by (simp add: ob)
  moreover from 2 have "compute_pairings example_snapshot = Inr (Pairing_init ''eve'' '''' # rest, H)"
    unfolding lj by (simp add: ob)
  ultimately show ?thesis by blast
qed

subsection \<open>C6: the choice of the opponent\<close>



subsection \<open>C7: colors\<close>

text \<open>
  C7. For players \<open>a\<close> (the anchor) and \<open>b\<close>: the one with the strictly greater
  color balance gets black; with equal balances the higher rated gets white;
  with equal ratings too, \<open>a\<close> gets white. The result is (white, black).
\<close>

theorem color_assignment_rule:
  "(color_balance (h ! a) > color_balance (h ! b) \<longrightarrow> assign_colors h a b = (b, a)) \<and>
   (color_balance (h ! b) > color_balance (h ! a) \<longrightarrow> assign_colors h a b = (a, b)) \<and>
   (color_balance (h ! a) = color_balance (h ! b) \<and> rating (h ! a) > rating (h ! b) \<longrightarrow>
      assign_colors h a b = (a, b)) \<and>
   (color_balance (h ! a) = color_balance (h ! b) \<and> rating (h ! b) > rating (h ! a) \<longrightarrow>
      assign_colors h a b = (b, a)) \<and>
   (color_balance (h ! a) = color_balance (h ! b) \<and> rating (h ! a) = rating (h ! b) \<longrightarrow>
      assign_colors h a b = (a, b))"
  by (simp add: assign_colors_def)

text \<open>Each of the five cases on the sample store.\<close>

theorem color_assignment_rule_witness:
  "assign_colors (objs example_snapshot) 2 1 = (1, 2) \<and>
   assign_colors (objs example_snapshot) 1 2 = (1, 2) \<and>
   assign_colors (objs example_snapshot) 1 3 = (1, 3) \<and>
   assign_colors (objs example_snapshot) 3 1 = (1, 3) \<and>
   assign_colors (objs example_snapshot) 3 0 = (3, 0)"
proof -
  let ?h = "objs example_snapshot"
  have cb: "color_balance (?h ! 0) = 0" "color_balance (?h ! Suc 0) = 0"
      "color_balance (?h ! 2) = 1" "color_balance (?h ! 3) = 0"
    and rt: "rating (?h ! 0) = 1700" "rating (?h ! Suc 0) = 1800" "rating (?h ! 3) = 1700"
    by (simp_all add: example_snapshot_def player_defs)
  have 1: "assign_colors ?h 2 1 = (1, 2)"
    using color_assignment_rule [where h = ?h and a = 2 and b = 1] by (simp add: cb)
  have 2: "assign_colors ?h 1 2 = (1, 2)"
    using color_assignment_rule [where h = ?h and a = 1 and b = 2] by (simp add: cb)
  have 3: "assign_colors ?h 1 3 = (1, 3)"
    using color_assignment_rule [where h = ?h and a = 1 and b = 3] by (simp add: cb rt)
  have 4: "assign_colors ?h 3 1 = (1, 3)"
    using color_assignment_rule [where h = ?h and a = 3 and b = 1] by (simp add: cb rt)
  have 5: "assign_colors ?h 3 0 = (3, 0)"
    using color_assignment_rule [where h = ?h and a = 3 and b = 0] by (simp add: cb rt)
  from 1 2 3 4 5 show ?thesis by (intro conjI)
qed

subsection \<open>C8: the algorithm error\<close>

text \<open>
  C8. On every snapshot \<^verbatim>\<open>compute_pairings\<close> returns a result. A step of the
  matching loop fails exactly when \<^verbatim>\<open>find_best_opponent\<close> returns no opponent,
  and then with the exception that carries the anchor's id;
  \<^verbatim>\<open>find_best_opponent\<close> returns no opponent exactly for an empty candidate
  list, which the loop condition excludes: the matching loop returns a result
  on every store and pool.
\<close>

theorem no_algorithm_error:
  assumes init: "Tournament_init cs ci cf json = Inr t"
  shows "(\<exists>ps H. compute_pairings t = Inr (ps, H)) \<and>
     (\<forall>h a rest e.
        match_step h (a # rest) = Inl e \<longleftrightarrow>
          fst (find_best_opponent h a rest) = None \<and>
          e = Exception (''No valid opponent found for player '' @ id_of (h ! a))) \<and>
     (\<forall>h a rest. fst (find_best_opponent h a rest) = None \<longleftrightarrow> rest = []) \<and>
     (\<forall>h pool ps. \<exists>res. match_loop h pool ps = Inr res)"
proof -
  have sn: "snapshot t" using init by (rule Tournament_init_snapshot)
  from compute_pairings_refs [OF sn] have 1: "\<exists>ps H. compute_pairings t = Inr (ps, H)" by blast
  have 2: "match_step h (a # rest) = Inl e \<longleftrightarrow>
          fst (find_best_opponent h a rest) = None \<and>
          e = Exception (''No valid opponent found for player '' @ id_of (h ! a))" for h a rest e
  proof (cases "rest = []")
    case True
    then show ?thesis by (auto simp: match_step_def find_best_opponent_def)
  next
    case False
    from match_step_run [OF False, of h a] show ?thesis by auto
  qed
  from 1 2 find_best_opponent_None match_loop_total show ?thesis by blast
qed

text \<open>On the sample tournament.\<close>

theorem no_algorithm_error_witness:
  "(\<exists>ps H. compute_pairings example_snapshot = Inr (ps, H)) \<and>
   (\<exists>pr pool. match_step (objs example_snapshot) [1, 0] = Inr (pr, pool))"
proof -
  note th = no_algorithm_error [OF example_init]
  from th have 1: "\<exists>ps H. compute_pairings example_snapshot = Inr (ps, H)"
    by (rule conjunct1)
  note q = conjunct1 [OF conjunct2 [OF th], rule_format]
  note r = conjunct1 [OF conjunct2 [OF conjunct2 [OF th]], rule_format]
  have ne: "fst (find_best_opponent (objs example_snapshot) 1 [0]) \<noteq> None"
    using r [of "objs example_snapshot" 1 "[0]"] by simp
  have "match_step (objs example_snapshot) [1, 0] \<noteq> Inl e" for e
    using q [of "objs example_snapshot" 1 "[0]" e] ne by simp
  then have "\<exists>pr pool. match_step (objs example_snapshot) [1, 0] = Inr (pr, pool)"
    by (cases "match_step (objs example_snapshot) [1, 0]") auto
  with 1 show ?thesis by (rule conjI)
qed

subsection \<open>C9: records that are missing a field or malformed\<close>

text \<open>
  C9, as amended. If some record lacks one of the keys id, rating, score, or
  has a rating or score the conversion rejects, the constructor raises and
  returns no snapshot. The error is the one raised for such a record: a
  \<^verbatim>\<open>KeyError\<close> carrying the name of the missing key, or else the error of the
  conversion of the rating or of the score.
\<close>

theorem bad_record_fails:
  assumes "\<exists>d\<in>set ds. missing_or_malformed ci cf d"
  shows "\<exists>e d. Tournament_init cs ci cf (Some ds) = Inl e \<and> d \<in> set ds \<and>
      load_player cs ci cf d = Inl e \<and>
      (e = KeyError ''id'' \<and> pd_id d = None \<or>
       e = KeyError ''rating'' \<and> pd_rating d = None \<or>
       e = KeyError ''score'' \<and> pd_score d = None \<or>
       (\<exists>v. pd_rating d = Some v \<and> ci v = Inl e) \<or>
       (\<exists>v. pd_score d = Some v \<and> cf v = Inl e))"
proof -
  from load_players_error [OF assms, of cs "\<lparr>objs = [], players = [], current_round = 1\<rparr>"]
  obtain e d where
    l: "load_players cs ci cf ds \<lparr>objs = [], players = [], current_round = 1\<rparr> = Inl e"
    and d: "d \<in> set ds" and e: "load_player cs ci cf d = Inl e"
    by blast
  from e have "missing_or_malformed ci cf d"
    by (auto simp: missing_or_malformed_def load_player_def subscript_def
        split: option.splits sum.splits)
  from load_player_error [OF this, of cs] e
  have "e = KeyError ''id'' \<and> pd_id d = None \<or>
       e = KeyError ''rating'' \<and> pd_rating d = None \<or>
       e = KeyError ''score'' \<and> pd_score d = None \<or>
       (\<exists>v. pd_rating d = Some v \<and> ci v = Inl e) \<or>
       (\<exists>v. pd_score d = Some v \<and> cf v = Inl e)"
    by simp
  moreover from l have "Tournament_init cs ci cf (Some ds) = Inl e"
    by (simp add: Tournament_init_def load_from_json_def)
  ultimately show ?thesis using d e by blast
qed

text \<open>A record without a score.\<close>

theorem bad_record_fails_witness:
  "\<exists>e d. Tournament_init (\<lambda>s. s) Inr Inr
            (Some [PlayerInput_dict ''ann'' 1800 2 [] [] False,
                   (PlayerInput_dict ''bob'' 1700 1 [] [] False)\<lparr>pd_score := None\<rparr>]) = Inl e \<and>
      d \<in> set [PlayerInput_dict ''ann'' 1800 2 [] [] False,
                (PlayerInput_dict ''bob'' 1700 1 [] [] False)\<lparr>pd_score := None\<rparr>] \<and>
      load_player (\<lambda>s. s) Inr Inr d = Inl e \<and> e = KeyError ''score''"
proof -
  let ?ds = "[PlayerInput_dict ''ann'' 1800 2 [] [] False,
              (PlayerInput_dict ''bob'' 1700 1 [] [] False)\<lparr>pd_score := None\<rparr>]"
  have "\<exists>d\<in>set ?ds. missing_or_malformed Inr Inr d"
    by (simp add: missing_or_malformed_def PlayerInput_dict_def)
  from bad_record_fails [OF this, of "\<lambda>s. s"] show ?thesis
    by (auto simp: PlayerInput_dict_def)
qed

text \<open>
  C9 as stated fails for a record without an id: the error is the \<^verbatim>\<open>KeyError\<close>
  of the subscript, which the handlers report as an internal error (status
  500), not as invalid input.
\<close>

theorem input_error_counterexample:
  "missing_or_malformed Inr Inr ((PlayerInput_dict ''ann'' 1800 2 [] [] False)\<lparr>pd_id := None\<rparr>) \<and>
   Tournament_init (\<lambda>s. s) Inr Inr
     (Some [(PlayerInput_dict ''ann'' 1800 2 [] [] False)\<lparr>pd_id := None\<rparr>]) = Inl (KeyError ''id'') \<and>
   http_error (KeyError ''id'') = (500, ''Internal error: '' @ [CHR 0x27] @ ''id'' @ [CHR 0x27]) \<and>
   \<not> input_error (KeyError ''id'')"
  by (simp add: missing_or_malformed_def load_defs input_error_def http_error_def str_of_error_def)

subsection \<open>C10: ranks\<close>



end
